theory Spec2Isabelle
  imports Complex_Main
begin

section \<open>Event-type resolver of the recorder: data model\<close>

text \<open>
  The theory embeds \<^verbatim>\<open>recorder/table_managers/event_types.py\<close> (class
  \<^verbatim>\<open>EventTypeManager\<close>) and the query helpers \<^verbatim>\<open>chunked\<close>, \<^verbatim>\<open>take\<close> and
  \<^verbatim>\<open>execute_stmt_lambda_element\<close> of \<^verbatim>\<open>recorder/util.py\<close>.
  Mutation is explicit state passing, an exception is the \<open>Inl\<close> branch of a sum,
  and every loop is a recursive function over the sequence it iterates.
\<close>

subsection \<open>Exceptions\<close>

text \<open>
  \<open>OperationalError c\<close> is \<^verbatim>\<open>sqlalchemy.exc.OperationalError\<close>, with \<open>c\<close> the
  first element of \<^verbatim>\<open>err.orig.args\<close> (the backend's error code), \<open>None\<close> when
  \<^verbatim>\<open>args\<close> is empty. \<open>SQLAlchemyError\<close> stands for every other subclass of
  \<^verbatim>\<open>SQLAlchemyError\<close> (\<^verbatim>\<open>IntegrityError\<close>, \<^verbatim>\<open>ProgrammingError\<close>, ...),
  \<open>OtherException\<close> for an exception that is no \<^verbatim>\<open>SQLAlchemyError\<close>.
\<close>

datatype exn =
    OperationalError "int option"
  | SQLAlchemyError
  | OtherException
  | RuntimeError
  | AssertionError
  | KeyError string

fun is_SQLAlchemyError :: "exn \<Rightarrow> bool" where
  "is_SQLAlchemyError (OperationalError c) = True"
| "is_SQLAlchemyError SQLAlchemyError = True"
| "is_SQLAlchemyError e = False"

datatype SupportedDialect = MYSQL | POSTGRESQL | SQLITE

definition RETRYABLE_MYSQL_ERRORS :: "int list" where
  "RETRYABLE_MYSQL_ERRORS = [1205, 1206, 1213]"

text \<open>
  \<^verbatim>\<open>_is_retryable_error(instance, err)\<close>: the dialect is MySQL and
  \<^verbatim>\<open>err.orig.args[0]\<close> is one of the retryable codes. The first argument is
  \<^verbatim>\<open>instance.engine.dialect.name\<close>.
\<close>

fun is_retryable_error :: "SupportedDialect \<Rightarrow> exn \<Rightarrow> bool" where
  "is_retryable_error dialect (OperationalError (Some c)) =
     (dialect = MYSQL \<and> c \<in> set RETRYABLE_MYSQL_ERRORS)"
| "is_retryable_error dialect e = False"

subsection \<open>The bounded cache\<close>

text \<open>
  Modelled from the spec: BoundedKeyedCache (the class \<^verbatim>\<open>LRU\<close> of the package
  \<^verbatim>\<open>lru\<close> is imported, not defined in the repository). A fixed capacity and the
  entries, most recently used first. \<open>get\<close> refreshes recency on a hit, \<open>contains\<close>
  does not, \<open>put\<close> of a new key evicts the least recently used entry when the capacity
  would be exceeded, \<open>pop\<close> removes a key and is a no-op when it is absent.
\<close>

record 'v LRU =
  lru_size :: nat
  lru_items :: "(string \<times> 'v) list"

definition LRU_new :: "nat \<Rightarrow> 'v LRU" where
  "LRU_new n = \<lparr>lru_size = n, lru_items = []\<rparr>"

definition lru_keys :: "'v LRU \<Rightarrow> string list" where
  "lru_keys c = map fst (lru_items c)"

definition lru_contains :: "string \<Rightarrow> 'v LRU \<Rightarrow> bool" where
  "lru_contains k c = (k \<in> set (lru_keys c))"

definition lru_peek :: "string \<Rightarrow> 'v LRU \<Rightarrow> 'v option" where
  "lru_peek k c = map_of (lru_items c) k"

definition lru_remove :: "string \<Rightarrow> (string \<times> 'v) list \<Rightarrow> (string \<times> 'v) list" where
  "lru_remove k xs = filter (\<lambda>p. fst p \<noteq> k) xs"

definition lru_get :: "string \<Rightarrow> 'v LRU \<Rightarrow> 'v option \<times> 'v LRU" where
  "lru_get k c =
     (case map_of (lru_items c) k of
        None \<Rightarrow> (None, c)
      | Some v \<Rightarrow> (Some v, c\<lparr>lru_items := (k, v) # lru_remove k (lru_items c)\<rparr>))"

definition lru_put :: "string \<Rightarrow> 'v \<Rightarrow> 'v LRU \<Rightarrow> 'v LRU" where
  "lru_put k v c =
     (if lru_contains k c then c\<lparr>lru_items := (k, v) # lru_remove k (lru_items c)\<rparr>
      else if lru_size c < length (lru_items c) + 1
        then c\<lparr>lru_items := (k, v) # butlast (lru_items c)\<rparr>
        else c\<lparr>lru_items := (k, v) # lru_items c\<rparr>)"

definition lru_pop :: "string \<Rightarrow> 'v LRU \<Rightarrow> 'v LRU" where
  "lru_pop k c = c\<lparr>lru_items := lru_remove k (lru_items c)\<rparr>"

subsection \<open>Store, session and manager\<close>

text \<open>
  Modelled from the spec: EventTypeRecord (the class \<^verbatim>\<open>EventTypes\<close> of
  \<^verbatim>\<open>db_schema\<close> is not among the sources). The id is an integer generated by the
  store; the name is optional, as \<^verbatim>\<open>add_pending\<close> asserts that it is not
  \<^verbatim>\<open>None\<close>.
\<close>

record EventTypes =
  event_type_id :: int
  event_type :: "string option"

type_synonym row = "int \<times> string"

text \<open>
  Modelled from the spec: the statement built by \<^verbatim>\<open>find_event_type_ids\<close> (module
  \<^verbatim>\<open>queries\<close>, not among the sources) is
  \<^verbatim>\<open>SELECT id, name FROM event_types WHERE name IN (chunk)\<close>.
\<close>

datatype stmt = find_event_type_ids "string list"

fun run_stmt :: "stmt \<Rightarrow> row list \<Rightarrow> row list" where
  "run_stmt (find_event_type_ids chunk) tbl = filter (\<lambda>r. snd r \<in> set chunk) tbl"

datatype event = Executed stmt | Slept rat

fun is_Executed :: "event \<Rightarrow> bool" where
  "is_Executed (Executed q) = True"
| "is_Executed (Slept d) = False"

text \<open>
  The session and what can be observed of it: \<open>table\<close> holds the rows
  \<open>(event_type_id, event_type)\<close> of the store, \<open>raises i\<close> is the exception, if any,
  that the \<open>i\<close>-th statement executed on the session raises, and \<open>trace\<close> records,
  in order, every statement sent to the store and every call of \<^verbatim>\<open>time.sleep\<close>.
\<close>

record session =
  table :: "row list"
  raises :: "nat \<Rightarrow> exn option"
  trace :: "event list"

definition executed :: "session \<Rightarrow> nat" where
  "executed s = length (filter is_Executed (trace s))"

datatype task = RefreshEventTypesTask "string list"

text \<open>
  Modelled from the spec: ResolverState. The class \<^verbatim>\<open>BaseLRUTableManager\<close>, which
  creates \<^verbatim>\<open>_id_map\<close> as an \<^verbatim>\<open>LRU\<close> of the given size and \<^verbatim>\<open>_pending\<close> as an empty
  dict, is not among the sources. The manager holds \<^verbatim>\<open>_id_map\<close>,
  \<^verbatim>\<open>_non_existent_event_types\<close>, \<^verbatim>\<open>_pending\<close> (a dict, which keeps insertion order)
  and the task queue of \<^verbatim>\<open>self.recorder\<close>, to which \<^verbatim>\<open>queue_task\<close> appends.
\<close>

record manager =
  id_map :: "int LRU"
  non_existent_event_types :: "unit LRU"
  pending :: "(string \<times> EventTypes) list"
  queue :: "task list"

definition CACHE_SIZE :: nat where
  "CACHE_SIZE = 2048"

definition init_manager :: manager where
  "init_manager =
     \<lparr>id_map = LRU_new CACHE_SIZE, non_existent_event_types = LRU_new CACHE_SIZE,
      pending = [], queue = []\<rparr>"

type_synonym results = "string \<rightharpoonup> int option"

section \<open>Query helpers of util.py\<close>

definition RETRIES :: nat where
  "RETRIES = 3"

definition QUERY_RETRY_WAIT :: rat where
  "QUERY_RETRY_WAIT = 1 / 10"

text \<open>\<^verbatim>\<open>take(take_num, iterable)\<close> is \<^verbatim>\<open>list(islice(iterable, take_num))\<close>.\<close>

definition take_n :: "nat \<Rightarrow> 'a list \<Rightarrow> 'a list" where
  "take_n take_num iterable = take take_num iterable"

text \<open>
  \<^verbatim>\<open>chunked\<close> is \<^verbatim>\<open>iter(partial(take, chunked_num, iter(iterable)), [])\<close>: it takes
  \<open>chunked_num\<close> items at a time from one shared iterator and stops at the first empty
  chunk.
\<close>

function chunked :: "'a list \<Rightarrow> nat \<Rightarrow> 'a list list" where
  "chunked iterable chunked_num =
     (if take_n chunked_num iterable = [] then []
      else take_n chunked_num iterable # chunked (drop chunked_num iterable) chunked_num)"
  by pat_completeness auto
termination
  by (relation "measure (\<lambda>(xs, n). length xs)") (auto simp: take_n_def)

declare chunked.simps [simp del]

text \<open>
  \<^verbatim>\<open>execute_stmt_lambda_element\<close>, called without a time window, so that
  \<^verbatim>\<open>use_all\<close> holds and the rows are returned by \<^verbatim>\<open>executed.all()\<close>. The loop
  \<^verbatim>\<open>for tryno in range(RETRIES)\<close> is the recursion over the remaining values of
  \<^verbatim>\<open>tryno\<close>; the statement after the loop raises \<^verbatim>\<open>RuntimeError\<close>.
\<close>

fun execute_loop :: "nat list \<Rightarrow> stmt \<Rightarrow> session \<Rightarrow> (exn + row list) \<times> session" where
  "execute_loop [] q s = (Inl RuntimeError, s)"
| "execute_loop (tryno # rest) q s =
     (let s' = s\<lparr>trace := trace s @ [Executed q]\<rparr> in
      case raises s (executed s) of
        None \<Rightarrow> (Inr (run_stmt q (table s)), s')
      | Some err \<Rightarrow>
          if is_SQLAlchemyError err then
            if tryno = RETRIES - 1 then (Inl err, s')
            else execute_loop rest q (s'\<lparr>trace := trace s' @ [Slept QUERY_RETRY_WAIT]\<rparr>)
          else (Inl err, s'))"

definition execute_stmt_lambda_element :: "session \<Rightarrow> stmt \<Rightarrow> (exn + row list) \<times> session" where
  "execute_stmt_lambda_element s q = execute_loop [0..<RETRIES] q s"

section \<open>EventTypeManager\<close>

text \<open>
  \<^verbatim>\<open>_get_initial_results_and_missing\<close>: the loop over \<^verbatim>\<open>event_types\<close>, with the
  dict \<^verbatim>\<open>results\<close> and the list \<^verbatim>\<open>missing\<close> as accumulators. The last statement of
  the loop body, \<^verbatim>\<open>results[event_type] = event_type_id\<close>, runs in every branch.
\<close>

fun initial_loop ::
  "string list \<Rightarrow> results \<Rightarrow> string list \<Rightarrow> manager \<Rightarrow> (results \<times> string list) \<times> manager" where
  "initial_loop [] res missing m = ((res, missing), m)"
| "initial_loop (et # ets) res missing m =
     (case lru_get et (id_map m) of (etid, idm) \<Rightarrow>
        let m' = m\<lparr>id_map := idm\<rparr> in
        if etid = None \<and> lru_contains et (non_existent_event_types m')
          then initial_loop ets ((res(et \<mapsto> None))(et \<mapsto> etid)) missing m'
        else if etid = None
          then initial_loop ets (res(et \<mapsto> etid)) (missing @ [et]) m'
        else initial_loop ets (res(et \<mapsto> etid)) missing m')"

definition get_initial_results_and_missing ::
  "string list \<Rightarrow> manager \<Rightarrow> (results \<times> string list) \<times> manager" where
  "get_initial_results_and_missing event_types m = initial_loop event_types Map.empty [] m"

text \<open>
  \<^verbatim>\<open>_fetch_missing_event_ids_from_db\<close>: the inner loop stores each returned row in
  \<^verbatim>\<open>results\<close> and in \<^verbatim>\<open>_id_map\<close>; the outer loop runs one statement per chunk.
  The first argument is \<^verbatim>\<open>SQLITE_MAX_BIND_VARS\<close>, a constant of the module
  \<^verbatim>\<open>const\<close>, which is not among the sources.
\<close>

fun store_rows :: "row list \<Rightarrow> results \<Rightarrow> manager \<Rightarrow> results \<times> manager" where
  "store_rows [] res m = (res, m)"
| "store_rows ((etid, et) # rows) res m =
     store_rows rows (res(et \<mapsto> Some etid)) (m\<lparr>id_map := lru_put et etid (id_map m)\<rparr>)"

fun fetch_chunks ::
  "string list list \<Rightarrow> results \<Rightarrow> manager \<Rightarrow> session \<Rightarrow> (exn + results) \<times> manager \<times> session" where
  "fetch_chunks [] res m s = (Inr res, m, s)"
| "fetch_chunks (missing_chunk # chunks) res m s =
     (case execute_stmt_lambda_element s (find_event_type_ids missing_chunk) of
        (Inl err, s') \<Rightarrow> (Inl err, m, s')
      | (Inr rows, s') \<Rightarrow>
          (case store_rows rows res m of (res', m') \<Rightarrow> fetch_chunks chunks res' m' s'))"

definition fetch_missing_event_ids_from_db ::
  "nat \<Rightarrow> session \<Rightarrow> string list \<Rightarrow> results \<Rightarrow> manager \<Rightarrow> (exn + results) \<times> manager \<times> session" where
  "fetch_missing_event_ids_from_db max_bind_vars s missing res m =
     fetch_chunks (chunked missing max_bind_vars) res m s"

text \<open>\<^verbatim>\<open>_handle_non_existent_event_types\<close>.\<close>

definition handle_non_existent_event_types :: "string list \<Rightarrow> bool \<Rightarrow> manager \<Rightarrow> manager" where
  "handle_non_existent_event_types non_existent from_recorder m =
     (if from_recorder
      then m\<lparr>non_existent_event_types :=
               fold (\<lambda>et c. lru_put et () c) non_existent (non_existent_event_types m)\<rparr>
      else m\<lparr>queue := queue m @ [RefreshEventTypesTask non_existent]\<rparr>)"

text \<open>
  The comprehension \<^verbatim>\<open>[event_type for event_type in missing if results[event_type] is None]\<close>;
  a subscript of a key that is not in the dict raises \<^verbatim>\<open>KeyError\<close>.
\<close>

fun non_existent_of :: "results \<Rightarrow> string list \<Rightarrow> exn + string list" where
  "non_existent_of res [] = Inr []"
| "non_existent_of res (et # ets) =
     (case res et of
        None \<Rightarrow> Inl (KeyError et)
      | Some v \<Rightarrow>
          (case non_existent_of res ets of
             Inl err \<Rightarrow> Inl err
           | Inr rest \<Rightarrow> Inr (if v = None then et # rest else rest)))"

definition get_many ::
  "nat \<Rightarrow> string list \<Rightarrow> session \<Rightarrow> bool \<Rightarrow> manager \<Rightarrow> (exn + results) \<times> manager \<times> session" where
  "get_many max_bind_vars event_types s from_recorder m =
     (case get_initial_results_and_missing event_types m of
        ((res, missing), m1) \<Rightarrow>
          if missing = [] then (Inr res, m1, s)
          else
            (case fetch_missing_event_ids_from_db max_bind_vars s missing res m1 of
               (Inl err, m2, s2) \<Rightarrow> (Inl err, m2, s2)
             | (Inr res2, m2, s2) \<Rightarrow>
                 (case non_existent_of res2 missing of
                    Inl err \<Rightarrow> (Inl err, m2, s2)
                  | Inr non_existent \<Rightarrow>
                      if non_existent \<noteq> []
                      then (Inr res2,
                            handle_non_existent_event_types non_existent from_recorder m2, s2)
                      else (Inr res2, m2, s2))))"

text \<open>
  \<^verbatim>\<open>get\<close> calls \<^verbatim>\<open>get_many((event_type,), session)\<close>, so with the default
  \<^verbatim>\<open>from_recorder=False\<close>, and subscripts the returned dict.
\<close>

definition get ::
  "nat \<Rightarrow> string \<Rightarrow> session \<Rightarrow> bool \<Rightarrow> manager \<Rightarrow> (exn + int option) \<times> manager \<times> session" where
  "get max_bind_vars et s from_recorder m =
     (case get_many max_bind_vars [et] s False m of
        (Inl err, m', s') \<Rightarrow> (Inl err, m', s')
      | (Inr res, m', s') \<Rightarrow>
          (case res et of
             None \<Rightarrow> (Inl (KeyError et), m', s')
           | Some v \<Rightarrow> (Inr v, m', s')))"

text \<open>Item assignment of a Python dict: a present key keeps its position.\<close>

fun dict_set :: "string \<Rightarrow> 'v \<Rightarrow> (string \<times> 'v) list \<Rightarrow> (string \<times> 'v) list" where
  "dict_set k v [] = [(k, v)]"
| "dict_set k v ((k', v') # d) =
     (if k' = k then (k, v) # d else (k', v') # dict_set k v d)"

definition add_pending :: "EventTypes \<Rightarrow> manager \<Rightarrow> exn + manager" where
  "add_pending db_event_type m =
     (case event_type db_event_type of
        None \<Rightarrow> Inl AssertionError
      | Some et \<Rightarrow> Inr (m\<lparr>pending := dict_set et db_event_type (pending m)\<rparr>))"

definition clear_non_existent :: "string \<Rightarrow> manager \<Rightarrow> manager" where
  "clear_non_existent et m =
     m\<lparr>non_existent_event_types := lru_pop et (non_existent_event_types m)\<rparr>"

fun post_commit_loop :: "(string \<times> EventTypes) list \<Rightarrow> manager \<Rightarrow> manager" where
  "post_commit_loop [] m = m"
| "post_commit_loop ((et, db_event_types) # rest) m =
     post_commit_loop rest
       (clear_non_existent et
          (m\<lparr>id_map := lru_put et (event_type_id db_event_types) (id_map m)\<rparr>))"

definition post_commit_pending :: "manager \<Rightarrow> manager" where
  "post_commit_pending m = (post_commit_loop (pending m) m)\<lparr>pending := []\<rparr>"

definition evict_purged :: "string list \<Rightarrow> manager \<Rightarrow> manager" where
  "evict_purged event_types m = m\<lparr>id_map := fold lru_pop event_types (id_map m)\<rparr>"

section \<open>Notions used in the statements\<close>

text \<open>
  One refresh of recency by \<open>lru_get\<close>, one row stored in \<^verbatim>\<open>_id_map\<close>, and the entry
  of \<^verbatim>\<open>results\<close> that a row writes.
\<close>

definition refresh :: "string \<Rightarrow> 'v LRU \<Rightarrow> 'v LRU" where
  "refresh k c = snd (lru_get k c)"

definition put_row :: "row \<Rightarrow> int LRU \<Rightarrow> int LRU" where
  "put_row r c = lru_put (snd r) (fst r) c"

definition row_entry :: "row \<Rightarrow> string \<times> int option" where
  "row_entry r = (snd r, Some (fst r))"

text \<open>The rows that the statements of the given chunks return, in order.\<close>

definition chunk_rows :: "row list \<Rightarrow> string list list \<Rightarrow> row list" where
  "chunk_rows tbl chunks = concat (map (\<lambda>c. run_stmt (find_event_type_ids c) tbl) chunks)"

text \<open>
  The partition of the spec: a name is unresolved when it is neither in the id cache nor
  in the negative cache; an unresolved name is absent when the store has no row for it.
\<close>

definition unresolved :: "string list \<Rightarrow> manager \<Rightarrow> string list" where
  "unresolved names m =
     filter (\<lambda>et. lru_peek et (id_map m) = None \<and> \<not> lru_contains et (non_existent_event_types m))
       names"

definition absent_names :: "string list \<Rightarrow> manager \<Rightarrow> session \<Rightarrow> string list" where
  "absent_names names m s = filter (\<lambda>et. et \<notin> set (map snd (table s))) (unresolved names m)"

text \<open>
  The statements sent to the store when the statement of the \<open>i\<close>-th chunk is attempted
  \<open>ks ! i\<close> times.
\<close>

definition attempts_of :: "nat list \<Rightarrow> string list list \<Rightarrow> event list" where
  "attempts_of ks chunks =
     concat (map (\<lambda>(k, c). replicate k (Executed (find_event_type_ids c))) (zip ks chunks))"

text \<open>One entry put into a cache.\<close>

definition put_entry :: "string \<times> 'v \<Rightarrow> 'v LRU \<Rightarrow> 'v LRU" where
  "put_entry p c = lru_put (fst p) (snd p) c"

text \<open>
  The entries that follow the name \<open>n\<close> in a dict, and the entry of the id cache that
  \<^verbatim>\<open>post_commit_pending\<close> writes for an entry of the pending map.
\<close>

definition pending_after :: "string \<Rightarrow> (string \<times> 'v) list \<Rightarrow> (string \<times> 'v) list" where
  "pending_after n ps = drop 1 (dropWhile (\<lambda>p. fst p \<noteq> n) ps)"

definition id_entry :: "string \<times> EventTypes \<Rightarrow> string \<times> int" where
  "id_entry p = (fst p, event_type_id (snd p))"

text \<open>
  The managers that the operations of the resolver reach from the initial manager, for
  any sessions and arguments, and the well-formedness that they all have: the keys of
  each cache and of the pending dict are distinct, and no name is in both caches.
\<close>

definition wf_manager :: "manager \<Rightarrow> bool" where
  "wf_manager m \<longleftrightarrow>
     distinct (lru_keys (id_map m)) \<and> distinct (lru_keys (non_existent_event_types m)) \<and>
     distinct (map fst (pending m)) \<and>
     set (lru_keys (id_map m)) \<inter> set (lru_keys (non_existent_event_types m)) = {}"

inductive reachable :: "manager \<Rightarrow> bool" where
  init: "reachable init_manager"
| get_many: "reachable m \<Longrightarrow> get_many M ets s fr m = (r, m', s') \<Longrightarrow> reachable m'"
| get: "reachable m \<Longrightarrow> get M et s fr m = (r, m', s') \<Longrightarrow> reachable m'"
| add_pending: "reachable m \<Longrightarrow> add_pending db m = Inr m' \<Longrightarrow> reachable m'"
| post_commit_pending: "reachable m \<Longrightarrow> reachable (post_commit_pending m)"
| evict_purged: "reachable m \<Longrightarrow> reachable (evict_purged ets m)"

section \<open>Concrete sessions and records\<close>

text \<open>A session on an empty store whose every statement raises the given exception.\<close>

definition always_raises :: "exn \<Rightarrow> session" where
  "always_raises e = \<lparr>table = [], raises = (\<lambda>i. Some e), trace = []\<rparr>"

text \<open>A session on an empty store whose statements never raise.\<close>

definition empty_store :: session where
  "empty_store = \<lparr>table = [], raises = (\<lambda>i. None), trace = []\<rparr>"

text \<open>A store with two event types, whose statements never raise.\<close>

definition small_store :: session where
  "small_store = \<lparr>table = [(1, ''a''), (3, ''c'')], raises = (\<lambda>i. None), trace = []\<rparr>"

text \<open>
  The manager after a lookup, from the recorder, of a name \<open>x\<close> that the store does not have.
\<close>

definition neg_x :: manager where
  "neg_x = init_manager\<lparr>non_existent_event_types :=
      \<lparr>lru_size = CACHE_SIZE, lru_items = [(''x'', ())]\<rparr>\<rparr>"

text \<open>
  A manager that has resolved the names \<open>a\<close> and \<open>b\<close>.
\<close>

definition cached_a :: manager where
  "cached_a = init_manager\<lparr>id_map := \<lparr>lru_size = CACHE_SIZE, lru_items = [(''b'', 2), (''a'', 1)]\<rparr>\<rparr>"

text \<open>
  Event types with the names \<open>a\<close>, \<open>aa\<close>, \<open>aaa\<close>, ... and the ids 0, 1, 2, ...;
  \<open>many_pending\<close> is the manager after \<^verbatim>\<open>add_pending\<close> of the first
  \<open>CACHE_SIZE + 1\<close> of them, starting from the initial manager.
\<close>

definition type_name :: "nat \<Rightarrow> string" where
  "type_name i = replicate (Suc i) CHR ''a''"

definition numbered_type :: "nat \<Rightarrow> EventTypes" where
  "numbered_type i = \<lparr>event_type_id = int i, event_type = Some (type_name i)\<rparr>"

definition numbered_entry :: "nat \<Rightarrow> string \<times> EventTypes" where
  "numbered_entry i = (type_name i, numbered_type i)"

definition register :: "EventTypes \<Rightarrow> manager \<Rightarrow> manager" where
  "register r m = (case add_pending r m of Inl err \<Rightarrow> m | Inr m' \<Rightarrow> m')"

definition MANY :: nat where
  "MANY = CACHE_SIZE + 1"

definition many_pending :: manager where
  "many_pending = fold register (map numbered_type [0..<MANY]) init_manager"

text \<open>A store with the event types \<open>a\<close> and \<open>b\<close>, whose statements never raise.\<close>

definition store_ab :: session where
  "store_ab = \<lparr>table = [(1, ''a''), (2, ''b'')], raises = (\<lambda>i. None), trace = []\<rparr>"


section \<open>Lemmas\<close>

subsection \<open>The retry loop\<close>

lemma upt_RETRIES: "[0..<RETRIES] = [0, 1, 2]"
  by (simp add: RETRIES_def upt_rec)

lemma execute_unfold: "execute_stmt_lambda_element s q = execute_loop [0, 1, 2] q s"
  unfolding execute_stmt_lambda_element_def upt_RETRIES ..

lemma retryable_is_SQLAlchemyError: "is_retryable_error dialect e \<Longrightarrow> is_SQLAlchemyError e"
  by (cases e) auto

lemma execute_loop_trace: "\<exists>es. trace (snd (execute_loop ts q s)) = trace s @ es"
proof (induction ts arbitrary: s)
  case Nil
  show ?case by simp
next
  case (Cons tryno rest)
  let ?s2 = "s\<lparr>trace := trace s @ [Executed q, Slept QUERY_RETRY_WAIT]\<rparr>"
  obtain es where "trace (snd (execute_loop rest q ?s2)) = trace ?s2 @ es"
    using Cons.IH [of ?s2] by auto
  then show ?case
    by (auto simp: Let_def split: option.splits)
qed

lemma execute_loop_retry:
  "raises s (executed s) = Some e \<Longrightarrow> is_SQLAlchemyError e \<Longrightarrow> tryno \<noteq> RETRIES - 1 \<Longrightarrow>
   execute_loop (tryno # rest) q s =
     execute_loop rest q (s\<lparr>trace := trace s @ [Executed q, Slept QUERY_RETRY_WAIT]\<rparr>)"
  by (simp add: Let_def)

lemma execute_loop_first:
  "ts \<noteq> [] \<Longrightarrow> \<exists>rest. trace (snd (execute_loop ts q s)) = trace s @ Executed q # rest"
proof (cases ts)
  case Nil
  assume "ts \<noteq> []"
  with Nil show ?thesis by simp
next
  case (Cons tryno rest)
  let ?s2 = "s\<lparr>trace := trace s @ [Executed q, Slept QUERY_RETRY_WAIT]\<rparr>"
  obtain es where "trace (snd (execute_loop rest q ?s2)) = trace ?s2 @ es"
    using execute_loop_trace [of rest q ?s2] by auto
  with Cons show ?thesis
    by (auto simp: Let_def split: option.splits)
qed

lemma execute_loop_session:
  "table (snd (execute_loop ts q s)) = table s \<and> raises (snd (execute_loop ts q s)) = raises s"
proof (induction ts arbitrary: s)
  case Nil
  show ?case by simp
next
  case (Cons tryno rest)
  let ?s2 = "s\<lparr>trace := trace s @ [Executed q, Slept QUERY_RETRY_WAIT]\<rparr>"
  show ?case using Cons.IH [of ?s2]
    by (auto simp: Let_def split: option.splits)
qed

lemma execute_loop_rows:
  "execute_loop ts q s = (Inr rows, s') \<Longrightarrow> rows = run_stmt q (table s)"
proof (induction ts arbitrary: s)
  case Nil
  then show ?case by simp
next
  case (Cons tryno rest)
  let ?s2 = "s\<lparr>trace := trace s @ [Executed q, Slept QUERY_RETRY_WAIT]\<rparr>"
  show ?case using Cons.IH [of ?s2] Cons.prems
    by (auto simp: Let_def split: option.splits if_splits)
qed

lemma execute_facts:
  assumes "execute_stmt_lambda_element s q = (r, s')"
  shows "table s' = table s" and "raises s' = raises s"
    and "\<exists>es. trace s' = trace s @ Executed q # es"
    and "r = Inr rows \<Longrightarrow> rows = run_stmt q (table s)"
proof -
  have e: "execute_loop [0, 1, 2] q s = (r, s')" using assms by (simp add: execute_unfold)
  show "table s' = table s" and "raises s' = raises s"
    using execute_loop_session [of "[0, 1, 2]" q s] e by simp_all
  show "\<exists>es. trace s' = trace s @ Executed q # es"
    using execute_loop_first [of "[0, 1, 2]" q s] e by simp
  show "r = Inr rows \<Longrightarrow> rows = run_stmt q (table s)"
    using execute_loop_rows [of "[0, 1, 2]" q s rows s'] e by simp
qed

lemma execute_no_fault:
  "raises s (executed s) = None \<Longrightarrow>
   execute_stmt_lambda_element s q =
     (Inr (run_stmt q (table s)), s\<lparr>trace := trace s @ [Executed q]\<rparr>)"
  by (simp add: execute_unfold)

lemma execute_loop_attempts:
  "execute_loop ts q s = (Inr rows, s') \<Longrightarrow>
   \<exists>k<length ts. trace s' = trace s @ concat (replicate k [Executed q, Slept QUERY_RETRY_WAIT]) @ [Executed q]"
proof (induction ts arbitrary: s)
  case Nil
  then show ?case by simp
next
  case (Cons tryno rest)
  let ?s2 = "s\<lparr>trace := trace s @ [Executed q, Slept QUERY_RETRY_WAIT]\<rparr>"
  show ?case
  proof (cases "raises s (executed s)")
    case None
    with Cons.prems have "trace s' = trace s @ [Executed q]" by (auto simp: Let_def)
    then have "trace s' = trace s @ concat (replicate 0 [Executed q, Slept QUERY_RETRY_WAIT]) @ [Executed q]"
      by simp
    then show ?thesis by blast
  next
    case (Some err)
    with Cons.prems have r: "execute_loop rest q ?s2 = (Inr rows, s')"
      by (auto simp: Let_def split: if_splits)
    from Cons.IH [OF r] obtain k where k: "k < length rest"
      "trace s' = trace ?s2 @ concat (replicate k [Executed q, Slept QUERY_RETRY_WAIT]) @ [Executed q]"
      by blast
    then have "trace s' = trace s @ concat (replicate (Suc k) [Executed q, Slept QUERY_RETRY_WAIT]) @ [Executed q]"
      by simp
    with k(1) show ?thesis by (metis Suc_less_eq length_Cons)
  qed
qed

lemma execute_attempts:
  assumes "execute_stmt_lambda_element s q = (Inr rows, s')"
  shows "\<exists>k es. 0 < k \<and> k \<le> RETRIES \<and> trace s' = trace s @ es \<and>
           filter is_Executed es = replicate k (Executed q)"
proof -
  have "execute_loop [0, 1, 2] q s = (Inr rows, s')" using assms by (simp add: execute_unfold)
  from execute_loop_attempts [OF this] obtain k where k: "k < length [0::nat, 1, 2]"
    "trace s' = trace s @ concat (replicate k [Executed q, Slept QUERY_RETRY_WAIT]) @ [Executed q]"
    by blast
  let ?es = "concat (replicate k [Executed q, Slept QUERY_RETRY_WAIT]) @ [Executed q]"
  have "filter is_Executed (concat (replicate j [Executed q, Slept QUERY_RETRY_WAIT])) = replicate j (Executed q)" for j
    by (induction j) simp_all
  then have "filter is_Executed ?es = replicate (Suc k) (Executed q)"
    by (simp add: replicate_append_same)
  with k show ?thesis by (intro exI [of _ "Suc k"] exI [of _ ?es]) (simp add: RETRIES_def)
qed

subsection \<open>The bounded cache\<close>

lemma map_of_lru_remove: "map_of (lru_remove k xs) = (map_of xs)(k := None)"
  by (induction xs) (auto simp: lru_remove_def fun_eq_iff)

lemma keys_lru_remove: "map fst (lru_remove k xs) = filter (\<lambda>x. x \<noteq> k) (map fst xs)"
  by (induction xs) (auto simp: lru_remove_def)

lemma lru_contains_peek: "lru_contains k c \<longleftrightarrow> lru_peek k c \<noteq> None"
  by (simp add: lru_contains_def lru_peek_def lru_keys_def map_of_eq_None_iff)

lemma lru_get_fst: "fst (lru_get k c) = lru_peek k c"
  by (simp add: lru_get_def lru_peek_def split: option.splits)

lemma lru_get_peek: "lru_peek x (snd (lru_get k c)) = lru_peek x c"
  by (auto simp: lru_get_def lru_peek_def map_of_lru_remove split: option.splits)

lemma lru_get_size: "lru_size (snd (lru_get k c)) = lru_size c"
  by (simp add: lru_get_def split: option.splits)

lemma lru_get_miss: "lru_peek k c = None \<Longrightarrow> lru_get k c = (None, c)"
  by (simp add: lru_get_def lru_peek_def)


lemma lru_put_size: "lru_size (lru_put k v c) = lru_size c"
  by (simp add: lru_put_def)

lemma lru_put_keys_subset: "set (lru_keys (lru_put k v c)) \<subseteq> insert k (set (lru_keys c))"
  by (auto simp: lru_put_def lru_keys_def lru_remove_def dest: in_set_butlastD)

lemma lru_pop_keys: "lru_keys (lru_pop k c) = filter (\<lambda>x. x \<noteq> k) (lru_keys c)"
  by (simp add: lru_pop_def lru_keys_def keys_lru_remove)

lemma lru_pop_size: "lru_size (lru_pop k c) = lru_size c"
  by (simp add: lru_pop_def)

lemma fold_lru_pop:
  "fold lru_pop names c = c\<lparr>lru_items := filter (\<lambda>p. fst p \<notin> set names) (lru_items c)\<rparr>"
proof (induction names arbitrary: c)
  case Nil
  show ?case by simp
next
  case (Cons k names)
  have h: "filter (\<lambda>p. fst p \<notin> set names) (lru_remove k (lru_items c)) =
        filter (\<lambda>p. fst p \<notin> set (k # names)) (lru_items c)"
    by (simp add: lru_remove_def conj_commute)
  have "fold lru_pop (k # names) c = fold lru_pop names (lru_pop k c)" by simp
  also have "\<dots> = (lru_pop k c)\<lparr>lru_items :=
      filter (\<lambda>p. fst p \<notin> set names) (lru_items (lru_pop k c))\<rparr>"
    by (rule Cons.IH)
  also have "\<dots> = c\<lparr>lru_items := filter (\<lambda>p. fst p \<notin> set (k # names)) (lru_items c)\<rparr>"
    unfolding h [symmetric] by (simp add: lru_pop_def)
  finally show ?case .
qed


lemma fold_refresh_peek: "lru_peek x (fold refresh ets c) = lru_peek x c"
  by (induction ets arbitrary: c) (simp_all add: refresh_def lru_get_peek)

lemma fold_refresh_size: "lru_size (fold refresh ets c) = lru_size c"
  by (induction ets arbitrary: c) (simp_all add: refresh_def lru_get_size)

lemma fold_refresh_miss:
  "\<forall>et\<in>set ets. lru_peek et c = None \<Longrightarrow> fold refresh ets c = c"
  by (induction ets arbitrary: c) (simp_all add: refresh_def lru_get_miss)

subsection \<open>What a bounded cache keeps and what it evicts\<close>

lemma lru_remove_append: "lru_remove a (xs @ ys) = lru_remove a xs @ lru_remove a ys"
  by (simp add: lru_remove_def)

lemma lru_remove_absent: "a \<notin> fst ` set xs \<Longrightarrow> lru_remove a xs = xs"
  by (induction xs) (auto simp: lru_remove_def)

lemma distinct_lru_remove: "distinct (map fst xs) \<Longrightarrow> distinct (map fst (lru_remove a xs))"
  by (simp add: lru_remove_def distinct_map_filter)

lemma lru_put_distinct:
  assumes "distinct (lru_keys c)"
  shows "distinct (lru_keys (lru_put k v c))"
proof -
  have r: "k \<notin> set (map fst (lru_remove k (lru_items c)))"
    by (auto simp: lru_remove_def)
  have b: "distinct (map fst (butlast (lru_items c)))"
    using assms by (simp add: lru_keys_def map_butlast distinct_butlast)
  have s: "set (butlast (lru_items c)) \<subseteq> set (lru_items c)"
    by (auto dest: in_set_butlastD)
  show ?thesis
    using assms r b s distinct_lru_remove [of "lru_items c" k]
    by (auto simp: lru_put_def lru_keys_def lru_contains_def)
qed

lemma fold_put_distinct:
  "distinct (lru_keys c) \<Longrightarrow> distinct (lru_keys (fold put_entry kvs c))"
  by (induction kvs arbitrary: c) (simp_all add: put_entry_def lru_put_distinct)

lemma fold_put_size: "lru_size (fold put_entry kvs c) = lru_size c"
  by (induction kvs arbitrary: c) (simp_all add: put_entry_def lru_put_size)

lemma fold_put_absent:
  "k \<notin> set (lru_keys c) \<Longrightarrow> k \<notin> fst ` set kvs \<Longrightarrow> k \<notin> set (lru_keys (fold put_entry kvs c))"
proof (induction kvs arbitrary: c)
  case Nil
  then show ?case by simp
next
  case (Cons p kvs)
  have "k \<notin> set (lru_keys (lru_put (fst p) (snd p) c))"
    using lru_put_keys_subset [of "fst p" "snd p" c] Cons.prems by auto
  then show ?case using Cons by (simp add: put_entry_def)
qed

lemma lru_put_front: "\<exists>rest. lru_items (lru_put k v c) = (k, v) # rest"
  by (simp add: lru_put_def)

lemma lru_put_behind:
  assumes items: "lru_items c = pre @ (k, v) # post"
    and dist: "distinct (map fst (lru_items c))"
    and ak: "a \<noteq> k"
    and room: "a \<notin> fst ` set pre \<Longrightarrow> length pre + 1 < lru_size c"
  shows "\<exists>pre' post'. lru_items (lru_put a w c) = pre' @ (k, v) # post' \<and>
           set (map fst pre') \<subseteq> insert a (set (map fst pre))"
proof (cases "lru_contains a c")
  case True
  have "lru_items (lru_put a w c) = ((a, w) # lru_remove a pre) @ (k, v) # lru_remove a post"
    using True ak by (simp add: lru_put_def items lru_remove_def)
  moreover have "set (map fst ((a, w) # lru_remove a pre)) \<subseteq> insert a (set (map fst pre))"
    by (auto simp: lru_remove_def)
  ultimately show ?thesis by blast
next
  case False
  show ?thesis
  proof (cases "lru_size c < length (lru_items c) + 1")
    case full: True
    have "a \<notin> fst ` set pre" using False by (auto simp: lru_contains_def lru_keys_def items)
    then have "post \<noteq> []" using full room items by auto
    then have "butlast (lru_items c) = pre @ (k, v) # butlast post"
      by (simp add: items butlast_append)
    then have "lru_items (lru_put a w c) = ((a, w) # pre) @ (k, v) # butlast post"
      using False full by (simp add: lru_put_def)
    then show ?thesis by (intro exI [of _ "(a, w) # pre"] exI [of _ "butlast post"]) auto
  next
    case notfull: False
    have "lru_items (lru_put a w c) = ((a, w) # pre) @ (k, v) # post"
      using False notfull by (simp add: lru_put_def items)
    then show ?thesis by (intro exI [of _ "(a, w) # pre"] exI [of _ post]) auto
  qed
qed

lemma lru_keeps:
  assumes "lru_items c = pre @ (k, v) # post"
    and "distinct (map fst (lru_items c))"
    and "k \<notin> fst ` set kvs"
    and "card (set (map fst pre) \<union> fst ` set kvs) < lru_size c"
  shows "lru_peek k (fold put_entry kvs c) = Some v"
  using assms
proof (induction kvs arbitrary: c pre post)
  case Nil
  have "k \<notin> fst ` set pre" using Nil.prems(1,2) by auto
  then have "map_of pre k = None" by (simp add: map_of_eq_None_iff)
  then show ?case using Nil.prems(1) by (simp add: lru_peek_def map_add_def)
next
  case (Cons p kvs)
  obtain a w where p: "p = (a, w)" by (cases p)
  have ak: "a \<noteq> k" using Cons.prems(3) p by auto
  have dpre: "distinct (map fst pre)" using Cons.prems(1,2) by simp
  have room: "length pre + 1 < lru_size c" if "a \<notin> fst ` set pre"
  proof -
    have "card (set (map fst pre)) = length pre"
      using distinct_card [OF dpre] by simp
    then have "length pre + 1 = card (insert a (set (map fst pre)))"
      using that by simp
    also have "\<dots> \<le> card (set (map fst pre) \<union> fst ` set (p # kvs))"
      by (rule card_mono) (auto simp: p)
    finally show ?thesis using Cons.prems(4) by simp
  qed
  obtain pre' post' where i': "lru_items (lru_put a w c) = pre' @ (k, v) # post'"
    and sub: "set (map fst pre') \<subseteq> insert a (set (map fst pre))"
    using lru_put_behind [OF Cons.prems(1,2) ak room] by blast
  have d': "distinct (map fst (lru_items (lru_put a w c)))"
    using lru_put_distinct [of c a w] Cons.prems(2) by (simp add: lru_keys_def)
  have k': "k \<notin> fst ` set kvs" using Cons.prems(3) by auto
  have "card (set (map fst pre') \<union> fst ` set kvs) \<le>
        card (set (map fst pre) \<union> fst ` set (p # kvs))"
    using sub by (intro card_mono) (auto simp: p)
  then have c': "card (set (map fst pre') \<union> fst ` set kvs) < lru_size (lru_put a w c)"
    using Cons.prems(4) by (simp add: lru_put_size)
  show ?case
    using Cons.IH [OF i' d' k' c'] by (simp add: put_entry_def p)
qed

lemma lru_evicts:
  assumes "lru_items c = pre @ (k, v) # post"
    and "distinct (map fst (lru_items c))"
    and "length (lru_items c) \<le> lru_size c"
    and "distinct (map fst kvs)"
    and "fst ` set kvs \<inter> insert k (fst ` set pre) = {}"
    and "lru_size c \<le> length pre + length kvs"
  shows "k \<notin> set (lru_keys (fold put_entry kvs c))"
  using assms
proof (induction kvs arbitrary: c pre post)
  case Nil
  then show ?case by simp
next
  case (Cons p kvs)
  obtain a w where p: "p = (a, w)" by (cases p)
  let ?c = "lru_put a w c"
  have ak: "a \<noteq> k" and apre: "a \<notin> fst ` set pre" using Cons.prems(5) p by auto
  have akvs: "a \<notin> fst ` set kvs" and dk: "distinct (map fst kvs)"
    using Cons.prems(4) p by auto
  have kk: "k \<notin> fst ` set kvs" using Cons.prems(5) by auto
  have d': "distinct (map fst (lru_items ?c))"
    using lru_put_distinct [of c a w] Cons.prems(2) by (simp add: lru_keys_def)
  have disj: "fst ` set kvs \<inter> insert k (fst ` set ((a, w) # pre)) = {}"
    using Cons.prems(5) akvs by auto
  have sz: "lru_size ?c \<le> length ((a, w) # pre) + length kvs"
    using Cons.prems(6) by (simp add: lru_put_size)
  have step: "fold put_entry (p # kvs) c = fold put_entry kvs ?c"
    by (simp add: put_entry_def p)
  show ?case
  proof (cases "lru_contains a c")
    case True
    then have apost: "a \<in> fst ` set post"
      using apre ak Cons.prems(1) by (auto simp: lru_contains_def lru_keys_def)
    have i': "lru_items ?c = ((a, w) # pre) @ (k, v) # lru_remove a post"
      using True ak apre
      by (simp add: lru_put_def Cons.prems(1) lru_remove_append lru_remove_absent)
        (simp add: lru_remove_def)
    obtain b where "(a, b) \<in> set post" using apost by auto
    then have "length (lru_remove a post) < length post"
      unfolding lru_remove_def by (intro length_filter_less [of "(a, b)" post]) auto
    then have l': "length (lru_items ?c) \<le> lru_size ?c"
      using Cons.prems(1,3) by (simp add: i' lru_put_size)
    show ?thesis unfolding step by (rule Cons.IH [OF i' d' l' dk disj sz])
  next
    case False
    show ?thesis
    proof (cases "lru_size c < length (lru_items c) + 1")
      case full: True
      show ?thesis
      proof (cases "post = []")
        case True
        have "lru_items ?c = (a, w) # pre"
          using False full True by (simp add: lru_put_def Cons.prems(1) butlast_append)
        then have "k \<notin> set (lru_keys ?c)"
          using ak Cons.prems(1,2) by (auto simp: lru_keys_def)
        then show ?thesis unfolding step using kk by (rule fold_put_absent)
      next
        case ne: False
        have i': "lru_items ?c = ((a, w) # pre) @ (k, v) # butlast post"
          using False full ne by (simp add: lru_put_def Cons.prems(1) butlast_append)
        have l': "length (lru_items ?c) \<le> lru_size ?c"
          using Cons.prems(1,3) ne by (simp add: i' lru_put_size)
        show ?thesis unfolding step by (rule Cons.IH [OF i' d' l' dk disj sz])
      qed
    next
      case notfull: False
      have i': "lru_items ?c = ((a, w) # pre) @ (k, v) # post"
        using False notfull by (simp add: lru_put_def Cons.prems(1))
      have l': "length (lru_items ?c) \<le> lru_size ?c"
        using notfull Cons.prems(1) by (simp add: i' lru_put_size)
      show ?thesis unfolding step by (rule Cons.IH [OF i' d' l' dk disj sz])
    qed
  qed
qed

lemma fold_put_all_present:
  assumes dist: "distinct (lru_keys c)"
    and bound: "card (fst ` set kvs) \<le> lru_size c"
    and mem: "k \<in> fst ` set kvs"
  shows "lru_contains k (fold put_entry kvs c)"
proof -
  have "\<exists>p\<in>set kvs. fst p = k" using mem by auto
  from split_list_last_prop [OF this]
  obtain kvs1 p kvs2 where kv: "kvs = kvs1 @ p # kvs2" and fk: "fst p = k"
    and last: "\<forall>z\<in>set kvs2. fst z \<noteq> k"
    by blast
  let ?c1 = "put_entry p (fold put_entry kvs1 c)"
  have fold: "fold put_entry kvs c = fold put_entry kvs2 ?c1"
    by (simp add: kv)
  obtain rest where "lru_items ?c1 = (k, snd p) # rest"
    using lru_put_front [of k "snd p" "fold put_entry kvs1 c"]
    by (auto simp: put_entry_def fk)
  then have i1: "lru_items ?c1 = [] @ (k, snd p) # rest" by simp
  have d1: "distinct (map fst (lru_items ?c1))"
    using fold_put_distinct [OF dist, of "kvs1 @ [p]"] by (simp add: lru_keys_def)
  have n2: "k \<notin> fst ` set kvs2" using last by auto
  have "fst ` set kvs2 \<subseteq> fst ` set kvs - {k}"
    using n2 by (auto simp: kv)
  then have "card (fst ` set kvs2) \<le> card (fst ` set kvs - {k})"
    by (intro card_mono) auto
  also have "\<dots> < card (fst ` set kvs)"
    using mem by (intro card_Diff1_less) auto
  finally have c1: "card (set (map fst []) \<union> fst ` set kvs2) < lru_size ?c1"
    using bound by (simp add: put_entry_def lru_put_size fold_put_size)
  have "lru_peek k (fold put_entry kvs2 ?c1) = Some (snd p)"
    by (rule lru_keeps [OF i1 d1 n2 c1])
  then show ?thesis unfolding fold by (simp add: lru_contains_peek)
qed

lemma fold_put_names:
  "fold (\<lambda>et c. lru_put et () c) ne c = fold put_entry (map (\<lambda>et. (et, ())) ne) c"
  by (induction ne arbitrary: c) (simp_all add: put_entry_def)

subsection \<open>Chunks\<close>

lemma chunked_zero: "chunked xs 0 = []"
  by (subst chunked.simps) (simp add: take_n_def)

lemma chunked_Nil: "chunked [] n = []"
  by (subst chunked.simps) (simp add: take_n_def)

lemma chunked_step:
  "0 < n \<Longrightarrow> xs \<noteq> [] \<Longrightarrow> chunked xs n = take n xs # chunked (drop n xs) n"
  by (subst chunked.simps) (simp add: take_n_def)

lemma chunked_single: "0 < M \<Longrightarrow> chunked [x] M = [[x]]"
  by (simp add: chunked_step chunked_Nil)

lemma concat_chunked: "0 < n \<Longrightarrow> concat (chunked xs n) = xs"
proof (induction xs n rule: chunked.induct)
  case (1 xs n)
  show ?case
  proof (cases "xs = []")
    case True
    then show ?thesis by (simp add: chunked_Nil)
  next
    case False
    with 1 show ?thesis by (simp add: chunked_step take_n_def)
  qed
qed

lemma chunked_sizes: "c \<in> set (chunked xs n) \<Longrightarrow> c \<noteq> [] \<and> length c \<le> n"
proof (induction xs n rule: chunked.induct)
  case (1 xs n)
  show ?case
  proof (cases "n = 0 \<or> xs = []")
    case True
    with "1.prems" show ?thesis by (auto simp: chunked_Nil chunked_zero)
  next
    case False
    with 1 show ?thesis by (auto simp: chunked_step take_n_def)
  qed
qed

lemma div_add_Suc: "0 < n \<Longrightarrow> (a + n) div n = Suc (a div n)" for a n :: nat
  by simp

lemma ceil_step:
  fixes n L :: nat
  assumes "0 < n" "0 < L"
  shows "(L + n - 1) div n = Suc ((L - n + n - 1) div n)"
proof (cases "L \<le> n")
  case True
  have e: "L + n - 1 = (L - 1) + n" using assms by simp
  have d: "((L - 1) + n) div n = Suc ((L - 1) div n)" using assms(1) by (rule div_add_Suc)
  have "(L + n - 1) div n = Suc ((L - 1) div n)" unfolding e by (rule d)
  moreover have "(L - 1) div n = 0" using True assms by simp
  moreover have "(L - n + n - 1) div n = 0" using True assms by simp
  ultimately show ?thesis by simp
next
  case False
  then have e: "L + n - 1 = (L - n + n - 1) + n" by simp
  have d: "((L - n + n - 1) + n) div n = Suc ((L - n + n - 1) div n)"
    using assms(1) by (rule div_add_Suc)
  show ?thesis unfolding e by (rule d)
qed

lemma length_chunked: "0 < n \<Longrightarrow> length (chunked xs n) = (length xs + n - 1) div n"
proof (induction xs n rule: chunked.induct)
  case (1 xs n)
  show ?case
  proof (cases "xs = []")
    case True
    with "1.prems" show ?thesis by (simp add: chunked_Nil)
  next
    case False
    then have ih: "length (chunked (drop n xs) n) = (length (drop n xs) + n - 1) div n"
      using 1 by (simp add: take_n_def)
    have pos: "0 < length xs" using False by simp
    show ?thesis
      using ih False "1.prems" ceil_step [OF "1.prems" pos] by (simp add: chunked_step)
  qed
qed

lemma ceil_div: 
  fixes N M :: nat
  assumes "0 < M"
  shows "(N + M - 1) div M = nat \<lceil>real N / real M\<rceil>"
proof -
  define q where "q = (N + M - 1) div M"
  have lo: "q * M \<le> N + M - 1" unfolding q_def by simp
  have hi: "N + M - 1 < (q + 1) * M" unfolding q_def using assms
    by (metis Suc_eq_plus1 dividend_less_div_times mult.commute mult_Suc add.commute less_numeral_extra(3)) 
  have 1: "N \<le> q * M" using hi assms by (simp add: algebra_simps)
  have 2: "q * M < N + M" using lo assms by linarith
  have a: "real N / real M \<le> real q"
    using 1 assms by (simp add: pos_divide_le_eq of_nat_mult [symmetric] del: of_nat_mult)
  have b: "real q < real N / real M + 1"
  proof -
    have "real (q * M) < real (N + M)" using 2 by (simp only: of_nat_less_iff)
    then have "real q * real M < real N + real M" by simp
    then have "real q < (real N + real M) / real M"
      using assms by (simp add: pos_less_divide_eq)
    moreover have "(real N + real M) / real M = real N / real M + 1"
      using assms by (simp add: add_divide_distrib)
    ultimately show ?thesis by simp
  qed
  have "\<lceil>real N / real M\<rceil> = int q"
    using a b by (intro ceiling_unique) (simp_all)
  then show ?thesis unfolding q_def by simp
qed

subsection \<open>The fetch\<close>

lemma store_rows_eq:
  "store_rows rows res m =
     (res ++ map_of (rev (map row_entry rows)), m\<lparr>id_map := fold put_row rows (id_map m)\<rparr>)"
proof (induction rows arbitrary: res m)
  case Nil
  show ?case by simp
next
  case (Cons r rows)
  obtain etid et where r: "r = (etid, et)" by (cases r)
  have m: "res(et \<mapsto> Some etid) ++ map_of (rev (map row_entry rows)) =
        res ++ map_of (rev (map row_entry (r # rows)))"
    by (simp add: r row_entry_def map_add_def fun_eq_iff split: option.splits)
  have "store_rows (r # rows) res m =
        store_rows rows (res(et \<mapsto> Some etid)) (m\<lparr>id_map := put_row r (id_map m)\<rparr>)"
    by (simp add: r put_row_def)
  also have "\<dots> = (res(et \<mapsto> Some etid) ++ map_of (rev (map row_entry rows)),
                   m\<lparr>id_map := fold put_row (r # rows) (id_map m)\<rparr>)"
    unfolding Cons.IH by simp
  finally show ?case unfolding m .
qed

lemma fold_put_row_size: "lru_size (fold put_row rows c) = lru_size c"
  by (induction rows arbitrary: c) (simp_all add: put_row_def lru_put_size)

lemma fetch_chunks_Inr:
  "fetch_chunks chunks res m s = (Inr res', m', s') \<Longrightarrow>
   res' = res ++ map_of (rev (map row_entry (chunk_rows (table s) chunks))) \<and>
   m' = m\<lparr>id_map := fold put_row (chunk_rows (table s) chunks) (id_map m)\<rparr> \<and>
   table s' = table s \<and> raises s' = raises s"
proof (induction chunks arbitrary: res m s)
  case Nil
  then show ?case by (simp add: chunk_rows_def)
next
  case (Cons c chunks)
  obtain r s1 where e: "execute_stmt_lambda_element s (find_event_type_ids c) = (r, s1)"
    by (cases "execute_stmt_lambda_element s (find_event_type_ids c)")
  show ?case
  proof (cases r)
    case (Inl err)
    with Cons.prems e show ?thesis by simp
  next
    case (Inr rows)
    have rows: "rows = run_stmt (find_event_type_ids c) (table s)"
      using execute_facts(4) [OF e Inr] .
    have t: "table s1 = table s" "raises s1 = raises s"
      using execute_facts(1,2) [OF e] by simp_all
    let ?res1 = "res ++ map_of (rev (map row_entry rows))"
    let ?m1 = "m\<lparr>id_map := fold put_row rows (id_map m)\<rparr>"
    have "fetch_chunks chunks ?res1 ?m1 s1 = (Inr res', m', s')"
      using Cons.prems e Inr by (simp add: store_rows_eq)
    from Cons.IH [OF this] show ?thesis
      by (simp add: t rows chunk_rows_def map_add_assoc [symmetric] map_of_append [symmetric] del: map_of_append)
  qed
qed

lemma fetch_chunks_frame:
  "fetch_chunks chunks res m s = (r, m', s') \<Longrightarrow>
   non_existent_event_types m' = non_existent_event_types m \<and> pending m' = pending m \<and>
   queue m' = queue m \<and> lru_size (id_map m') = lru_size (id_map m) \<and>
   table s' = table s \<and> raises s' = raises s \<and> (\<exists>es. trace s' = trace s @ es)"
proof (induction chunks arbitrary: res m s)
  case Nil
  then show ?case by simp
next
  case (Cons c chunks)
  obtain r1 s1 where e: "execute_stmt_lambda_element s (find_event_type_ids c) = (r1, s1)"
    by (cases "execute_stmt_lambda_element s (find_event_type_ids c)")
  note f = execute_facts(1,2,3) [OF e]
  show ?case
  proof (cases r1)
    case (Inl err)
    with Cons.prems e f show ?thesis by auto
  next
    case (Inr rows)
    let ?res1 = "res ++ map_of (rev (map row_entry rows))"
    let ?m1 = "m\<lparr>id_map := fold put_row rows (id_map m)\<rparr>"
    have "fetch_chunks chunks ?res1 ?m1 s1 = (r, m', s')"
      using Cons.prems e Inr by (simp add: store_rows_eq)
    from Cons.IH [OF this] f show ?thesis
      by (auto simp: fold_put_row_size)
  qed
qed

lemma fetch_chunks_first:
  "fetch_chunks (c # chunks) res m s = (r, m', s') \<Longrightarrow>
   \<exists>es. trace s' = trace s @ Executed (find_event_type_ids c) # es"
proof -
  assume a: "fetch_chunks (c # chunks) res m s = (r, m', s')"
  obtain r1 s1 where e: "execute_stmt_lambda_element s (find_event_type_ids c) = (r1, s1)"
    by (cases "execute_stmt_lambda_element s (find_event_type_ids c)")
  note f = execute_facts(3) [OF e]
  show ?thesis
  proof (cases r1)
    case (Inl err)
    with a e f show ?thesis by auto
  next
    case (Inr rows)
    let ?res1 = "res ++ map_of (rev (map row_entry rows))"
    let ?m1 = "m\<lparr>id_map := fold put_row rows (id_map m)\<rparr>"
    have "fetch_chunks chunks ?res1 ?m1 s1 = (r, m', s')"
      using a e Inr by (simp add: store_rows_eq)
    from fetch_chunks_frame [OF this] f show ?thesis by auto
  qed
qed

lemma fetch_chunks_no_fault:
  "\<forall>i. raises s i = None \<Longrightarrow>
   fetch_chunks chunks res m s =
     (Inr (res ++ map_of (rev (map row_entry (chunk_rows (table s) chunks)))),
      m\<lparr>id_map := fold put_row (chunk_rows (table s) chunks) (id_map m)\<rparr>,
      s\<lparr>trace := trace s @ map (\<lambda>c. Executed (find_event_type_ids c)) chunks\<rparr>)"
proof (induction chunks arbitrary: res m s)
  case Nil
  show ?case by (simp add: chunk_rows_def)
next
  case (Cons c chunks)
  let ?s1 = "s\<lparr>trace := trace s @ [Executed (find_event_type_ids c)]\<rparr>"
  have e: "execute_stmt_lambda_element s (find_event_type_ids c) =
           (Inr (run_stmt (find_event_type_ids c) (table s)), ?s1)"
    using Cons.prems by (simp add: execute_no_fault)
  have nf: "\<forall>i. raises ?s1 i = None" using Cons.prems by simp
  show ?case
    unfolding fetch_chunks.simps e
    by (simp add: store_rows_eq Cons.IH [OF nf] chunk_rows_def map_add_assoc [symmetric]
        map_of_append [symmetric] del: map_of_append)
qed

lemma fetch_chunks_attempts:
  "fetch_chunks chunks res m s = (Inr res', m', s') \<Longrightarrow>
   \<exists>ks es. length ks = length chunks \<and> (\<forall>k\<in>set ks. 0 < k \<and> k \<le> RETRIES) \<and>
     trace s' = trace s @ es \<and> filter is_Executed es = attempts_of ks chunks"
proof (induction chunks arbitrary: res m s)
  case Nil
  then show ?case by (simp add: attempts_of_def)
next
  case (Cons c chunks)
  obtain r s1 where e: "execute_stmt_lambda_element s (find_event_type_ids c) = (r, s1)"
    by (cases "execute_stmt_lambda_element s (find_event_type_ids c)")
  show ?case
  proof (cases r)
    case (Inl err)
    with Cons.prems e show ?thesis by simp
  next
    case (Inr rows)
    obtain k es1 where k: "0 < k" "k \<le> RETRIES" "trace s1 = trace s @ es1"
      "filter is_Executed es1 = replicate k (Executed (find_event_type_ids c))"
      using execute_attempts [of s "find_event_type_ids c" rows s1] e Inr by auto
    let ?res1 = "res ++ map_of (rev (map row_entry rows))"
    let ?m1 = "m\<lparr>id_map := fold put_row rows (id_map m)\<rparr>"
    have "fetch_chunks chunks ?res1 ?m1 s1 = (Inr res', m', s')"
      using Cons.prems e Inr by (simp add: store_rows_eq)
    from Cons.IH [OF this] obtain ks es2 where ks: "length ks = length chunks"
      "\<forall>k\<in>set ks. 0 < k \<and> k \<le> RETRIES" "trace s' = trace s1 @ es2"
      "filter is_Executed es2 = attempts_of ks chunks" by auto
    show ?thesis
      using k ks
      by (intro exI [of _ "k # ks"] exI [of _ "es1 @ es2"]) (simp add: attempts_of_def)
  qed
qed

lemma map_of_unique:
  "(k, v) \<in> set xs \<Longrightarrow> \<forall>v'. (k, v') \<in> set xs \<longrightarrow> v' = v \<Longrightarrow> map_of xs k = Some v"
  by (metis map_of_SomeD weak_map_of_SomeI)

lemma distinct_names_unique:
  "distinct (map snd tbl) \<Longrightarrow> (i, n) \<in> set tbl \<Longrightarrow> (j, n) \<in> set tbl \<Longrightarrow> i = j"
  by (metis eq_key_imp_eq_value distinct_map inj_on_def prod.collapse fst_conv snd_conv)

lemma map_of_row_entry_None:
  "map_of (rev (map row_entry rows)) x = None \<longleftrightarrow> x \<notin> snd ` set rows"
  by (simp add: map_of_eq_None_iff row_entry_def image_image)

lemma map_of_row_entry_Some:
  "map_of (rev (map row_entry rows)) x = Some v \<Longrightarrow> \<exists>i. v = Some i \<and> (i, x) \<in> set rows"
  by (auto dest!: map_of_SomeD simp: row_entry_def)

lemma set_chunk_rows:
  "set (chunk_rows tbl chunks) = {r \<in> set tbl. snd r \<in> set (concat chunks)}"
  by (auto simp: chunk_rows_def)

lemma set_chunk_rows_chunked:
  "0 < n \<Longrightarrow> set (chunk_rows tbl (chunked xs n)) = {r \<in> set tbl. snd r \<in> set xs}"
  by (simp add: set_chunk_rows concat_chunked)

subsection \<open>The resolver\<close>

lemma initial_loop_eq:
  "initial_loop ets res missing m =
     ((\<lambda>x. if x \<in> set ets then Some (lru_peek x (id_map m)) else res x,
       missing @ filter (\<lambda>et. lru_peek et (id_map m) = None
                            \<and> \<not> lru_contains et (non_existent_event_types m)) ets),
      m\<lparr>id_map := fold refresh ets (id_map m)\<rparr>)"
proof (induction ets arbitrary: res missing m)
  case Nil
  show ?case by simp
next
  case (Cons et ets)
  obtain etid idm where g: "lru_get et (id_map m) = (etid, idm)" by (cases "lru_get et (id_map m)")
  have etid: "etid = lru_peek et (id_map m)" using lru_get_fst [of et "id_map m"] g by simp
  have idm: "idm = refresh et (id_map m)" using g by (simp add: refresh_def)
  have peek: "\<And>x. lru_peek x idm = lru_peek x (id_map m)"
    using lru_get_peek [of _ et "id_map m"] g by simp
  show ?case
    unfolding initial_loop.simps g
    by (simp add: Cons.IH peek etid [symmetric] idm [symmetric] fun_eq_iff Let_def)
qed

lemma get_initial_eq:
  "get_initial_results_and_missing ets m =
     ((\<lambda>x. if x \<in> set ets then Some (lru_peek x (id_map m)) else None, unresolved ets m),
      m\<lparr>id_map := fold refresh ets (id_map m)\<rparr>)"
  by (simp add: get_initial_results_and_missing_def initial_loop_eq unresolved_def)

lemma non_existent_of_eq:
  "\<forall>et\<in>set missing. res et \<noteq> None \<Longrightarrow>
   non_existent_of res missing = Inr (filter (\<lambda>et. res et = Some None) missing)"
  by (induction missing) auto

lemma handle_False:
  "handle_non_existent_event_types ne False m = m\<lparr>queue := queue m @ [RefreshEventTypesTask ne]\<rparr>"
  by (simp add: handle_non_existent_event_types_def)

lemma handle_True:
  "handle_non_existent_event_types ne True m =
     m\<lparr>non_existent_event_types := fold (\<lambda>et c. lru_put et () c) ne (non_existent_event_types m)\<rparr>"
  by (simp add: handle_non_existent_event_types_def)

lemma get_many_cached:
  "unresolved ets m = [] \<Longrightarrow>
   get_many M ets s fr m =
     (Inr (\<lambda>x. if x \<in> set ets then Some (lru_peek x (id_map m)) else None),
      m\<lparr>id_map := fold refresh ets (id_map m)\<rparr>, s)"
  by (simp add: get_many_def get_initial_eq)

lemma get_many_fetch:
  assumes u: "unresolved ets m \<noteq> []"
    and f: "fetch_chunks (chunked (unresolved ets m) M)
              (\<lambda>x. if x \<in> set ets then Some (lru_peek x (id_map m)) else None)
              (m\<lparr>id_map := fold refresh ets (id_map m)\<rparr>) s = (Inr res2, m2, s2)"
  shows "get_many M ets s fr m =
     (Inr res2,
      (if filter (\<lambda>et. res2 et = Some None) (unresolved ets m) \<noteq> []
       then handle_non_existent_event_types
              (filter (\<lambda>et. res2 et = Some None) (unresolved ets m)) fr m2
       else m2), s2)"
proof -
  let ?res0 = "\<lambda>x. if x \<in> set ets then Some (lru_peek x (id_map m)) else None"
  have res2: "res2 = ?res0 ++ map_of (rev (map row_entry
                 (chunk_rows (table s) (chunked (unresolved ets m) M))))"
    using fetch_chunks_Inr [OF f] by simp
  have "\<forall>et\<in>set (unresolved ets m). res2 et \<noteq> None"
    by (auto simp: res2 unresolved_def map_add_def split: option.splits)
  from non_existent_of_eq [OF this] show ?thesis
    using u f
    by (simp add: get_many_def get_initial_eq fetch_missing_event_ids_from_db_def)
qed

lemma get_many_raises:
  assumes u: "unresolved ets m \<noteq> []"
    and f: "fetch_chunks (chunked (unresolved ets m) M)
              (\<lambda>x. if x \<in> set ets then Some (lru_peek x (id_map m)) else None)
              (m\<lparr>id_map := fold refresh ets (id_map m)\<rparr>) s = (Inl err, m2, s2)"
  shows "get_many M ets s fr m = (Inl err, m2, s2)"
  using u f by (simp add: get_many_def get_initial_eq fetch_missing_event_ids_from_db_def)

lemma non_existent_eq_absent:
  assumes "0 < M"
    and "res2 = (\<lambda>x. if x \<in> set ets then Some (lru_peek x (id_map m)) else None) ++
           map_of (rev (map row_entry (chunk_rows (table s) (chunked (unresolved ets m) M))))"
  shows "filter (\<lambda>et. res2 et = Some None) (unresolved ets m) = absent_names ets m s"
proof -
  have "\<And>et. et \<in> set (unresolved ets m) \<Longrightarrow>
          (res2 et = Some None) = (et \<notin> set (map snd (table s)))"
  proof -
    fix et assume et: "et \<in> set (unresolved ets m)"
    let ?rows = "chunk_rows (table s) (chunked (unresolved ets m) M)"
    have r0: "(\<lambda>x. if x \<in> set ets then Some (lru_peek x (id_map m)) else None) et = Some None"
      using et by (auto simp: unresolved_def)
    have dom: "(et \<in> snd ` set ?rows) = (et \<in> set (map snd (table s)))"
      using et by (auto simp: set_chunk_rows_chunked [OF assms(1)])
    show "(res2 et = Some None) = (et \<notin> set (map snd (table s)))"
    proof (cases "map_of (rev (map row_entry ?rows)) et")
      case None
      then have "res2 et = Some None" using r0 by (simp add: assms(2) map_add_def)
      moreover have "et \<notin> snd ` set ?rows" using None unfolding map_of_row_entry_None .
      ultimately show ?thesis using dom by simp
    next
      case (Some v)
      then obtain i where v: "v = Some i" "(i, et) \<in> set ?rows"
        using map_of_row_entry_Some by blast
      have "res2 et = Some (Some i)" using Some v by (simp add: assms(2) map_add_def)
      moreover have "et \<in> snd ` set ?rows" using v(2) by force
      ultimately show ?thesis using dom by simp
    qed
  qed
  then show ?thesis unfolding absent_names_def by (metis (mono_tags, lifting) filter_cong)
qed

lemma get_many_cases:
  obtains (cached) "unresolved ets m = []"
      "get_many M ets s fr m =
        (Inr (\<lambda>x. if x \<in> set ets then Some (lru_peek x (id_map m)) else None),
         m\<lparr>id_map := fold refresh ets (id_map m)\<rparr>, s)"
    | (raised) err m2 s2 where "unresolved ets m \<noteq> []"
      "fetch_chunks (chunked (unresolved ets m) M)
              (\<lambda>x. if x \<in> set ets then Some (lru_peek x (id_map m)) else None)
              (m\<lparr>id_map := fold refresh ets (id_map m)\<rparr>) s = (Inl err, m2, s2)"
      "get_many M ets s fr m = (Inl err, m2, s2)"
    | (fetched) res2 m2 s2 where "unresolved ets m \<noteq> []"
      "fetch_chunks (chunked (unresolved ets m) M)
              (\<lambda>x. if x \<in> set ets then Some (lru_peek x (id_map m)) else None)
              (m\<lparr>id_map := fold refresh ets (id_map m)\<rparr>) s = (Inr res2, m2, s2)"
      "get_many M ets s fr m =
         (Inr res2,
          (if filter (\<lambda>et. res2 et = Some None) (unresolved ets m) \<noteq> []
           then handle_non_existent_event_types
                  (filter (\<lambda>et. res2 et = Some None) (unresolved ets m)) fr m2
           else m2), s2)"
proof (cases "unresolved ets m = []")
  case True
  show ?thesis by (rule cached [OF True get_many_cached [OF True]])
next
  case False
  obtain r m2 s2 where f: "fetch_chunks (chunked (unresolved ets m) M)
              (\<lambda>x. if x \<in> set ets then Some (lru_peek x (id_map m)) else None)
              (m\<lparr>id_map := fold refresh ets (id_map m)\<rparr>) s = (r, m2, s2)"
    by (rule prod_cases3)
  show ?thesis
  proof (cases r)
    case (Inl err)
    note f' = f [unfolded Inl]
    show ?thesis by (rule raised [OF False f' get_many_raises [OF False f']])
  next
    case (Inr res2)
    note f' = f [unfolded Inr]
    show ?thesis by (rule fetched [OF False f' get_many_fetch [OF False f']])
  qed
qed

lemma get_many_False_frame:
  "non_existent_event_types (fst (snd (get_many M ets s False m))) = non_existent_event_types m \<and>
   pending (fst (snd (get_many M ets s False m))) = pending m"
proof (cases rule: get_many_cases [where M=M and ets=ets and s=s and fr=False and m=m])
  case cached
  then show ?thesis by simp
next
  case (raised err m2 s2)
  then show ?thesis using fetch_chunks_frame [OF raised(2)] by simp
next
  case (fetched res2 m2 s2)
  then show ?thesis using fetch_chunks_frame [OF fetched(2)] by (simp add: handle_False)
qed

lemma get_many_dom:
  assumes "get_many M ets s fr m = (Inr res, m', s')" and "et \<in> set ets"
  shows "res et \<noteq> None"
proof (cases rule: get_many_cases [where M=M and ets=ets and s=s and fr=fr and m=m])
  case cached
  with assms show ?thesis by auto
next
  case (raised err m2 s2)
  with assms show ?thesis by simp
next
  case (fetched res2 m2 s2)
  have "res2 = (\<lambda>x. if x \<in> set ets then Some (lru_peek x (id_map m)) else None) ++
          map_of (rev (map row_entry (chunk_rows (table s) (chunked (unresolved ets m) M))))"
    using fetch_chunks_Inr [OF fetched(2)] by simp
  then have "res2 et \<noteq> None" using assms(2) by (auto simp: map_add_def split: option.splits)
  with fetched(3) assms(1) show ?thesis by simp
qed

lemma get_many_absent:
  assumes M: "0 < M"
    and g: "get_many M names s fr m = (Inr res, m', s')"
    and ab: "absent_names names m s \<noteq> []"
  shows "\<exists>m2. m' = handle_non_existent_event_types (absent_names names m s) fr m2 \<and>
           non_existent_event_types m2 = non_existent_event_types m \<and> queue m2 = queue m \<and>
           pending m2 = pending m"
proof (cases rule: get_many_cases [where M=M and ets=names and s=s and fr=fr and m=m])
  case cached
  with ab show ?thesis by (simp add: absent_names_def)
next
  case (raised err m2 s2)
  with g show ?thesis by simp
next
  case (fetched res2 m2 s2)
  have r2: "res2 = (\<lambda>x. if x \<in> set names then Some (lru_peek x (id_map m)) else None) ++
           map_of (rev (map row_entry (chunk_rows (table s) (chunked (unresolved names m) M))))"
    using fetch_chunks_Inr [OF fetched(2)] by simp
  have ne: "filter (\<lambda>et. res2 et = Some None) (unresolved names m) = absent_names names m s"
    by (rule non_existent_eq_absent [OF M r2])
  have "m' = handle_non_existent_event_types (absent_names names m s) fr m2"
    using fetched(3) g ab unfolding ne by simp
  then show ?thesis using fetch_chunks_frame [OF fetched(2)] by auto
qed

lemma get_unfold:
  "get_many M [et] s False m = (r, m1, s1) \<Longrightarrow>
   get M et s fr m =
     (case r of
        Inl err \<Rightarrow> (Inl err, m1, s1)
      | Inr res \<Rightarrow>
          (case res et of None \<Rightarrow> (Inl (KeyError et), m1, s1) | Some v \<Rightarrow> (Inr v, m1, s1)))"
  by (cases r) (simp_all add: get_def)

lemma get_cached:
  assumes "lru_peek et (id_map m) = Some i"
  shows "get M et s fr m = (Inr (Some i), m\<lparr>id_map := refresh et (id_map m)\<rparr>, s)"
proof -
  have "unresolved [et] m = []" using assms by (simp add: unresolved_def)
  from get_many_cached [OF this, of M s False] show ?thesis
    using assms by (simp add: get_def)
qed

subsection \<open>Pending names, commit and eviction\<close>

lemma map_of_dict_set: "map_of (dict_set k v d) = (map_of d)(k \<mapsto> v)"
  by (induction d) (auto simp: fun_eq_iff)

lemma dict_set_split:
  "dict_set n r ps = takeWhile (\<lambda>p. fst p \<noteq> n) ps @ (n, r) # pending_after n ps"
  by (induction ps) (auto simp: pending_after_def)

lemma dict_set_fresh: "n \<notin> fst ` set ps \<Longrightarrow> dict_set n r ps = ps @ [(n, r)]"
  by (induction ps) auto

lemma pending_after_keys:
  "distinct (map fst ps) \<Longrightarrow> n \<notin> fst ` set (pending_after n ps)"
proof (induction ps)
  case Nil
  show ?case by (simp add: pending_after_def)
next
  case (Cons p ps)
  then show ?case by (auto simp: pending_after_def)
qed

lemma post_commit_loop_frame:
  "non_existent_event_types (post_commit_loop ps m) =
     fold lru_pop (map fst ps) (non_existent_event_types m) \<and>
   pending (post_commit_loop ps m) = pending m \<and> queue (post_commit_loop ps m) = queue m"
proof (induction ps arbitrary: m)
  case Nil
  show ?case by simp
next
  case (Cons p ps)
  obtain et r where p: "p = (et, r)" by (cases p)
  show ?case unfolding p by (simp add: Cons.IH clear_non_existent_def)
qed

lemma post_commit_loop_id_map:
  "id_map (post_commit_loop ps m) = fold put_entry (map id_entry ps) (id_map m)"
proof (induction ps arbitrary: m)
  case Nil
  show ?case by simp
next
  case (Cons p ps)
  obtain et r where p: "p = (et, r)" by (cases p)
  show ?case unfolding p
    by (simp add: Cons.IH clear_non_existent_def put_entry_def id_entry_def)
qed

subsection \<open>Reachable managers are well-formed\<close>

lemma refresh_keys:
  "set (lru_keys (refresh k c)) = set (lru_keys c) \<and>
   (distinct (lru_keys c) \<longrightarrow> distinct (lru_keys (refresh k c)))"
proof (cases "map_of (lru_items c) k")
  case None
  then show ?thesis by (simp add: refresh_def lru_get_def)
next
  case (Some v)
  then have "(k, v) \<in> set (lru_items c)" by (rule map_of_SomeD)
  then have "k \<in> fst ` set (lru_items c)" by force
  then show ?thesis using Some distinct_lru_remove [of "lru_items c" k]
    by (auto simp: refresh_def lru_get_def lru_keys_def lru_remove_def)
qed

lemma fold_refresh_keys:
  "set (lru_keys (fold refresh ets c)) = set (lru_keys c) \<and>
   (distinct (lru_keys c) \<longrightarrow> distinct (lru_keys (fold refresh ets c)))"
  by (induction ets arbitrary: c) (simp_all add: refresh_keys)

lemma fold_put_keys_subset:
  "set (lru_keys (fold put_entry kvs c)) \<subseteq> set (lru_keys c) \<union> fst ` set kvs"
proof (induction kvs arbitrary: c)
  case Nil
  show ?case by simp
next
  case (Cons p kvs)
  show ?case
    using Cons.IH [of "put_entry p c"] lru_put_keys_subset [of "fst p" "snd p" c]
    by (auto simp: put_entry_def)
qed

lemma fold_put_row_entries:
  "fold put_row rows c = fold put_entry (map (\<lambda>r. (snd r, fst r)) rows) c"
  by (induction rows arbitrary: c) (simp_all add: put_row_def put_entry_def)

lemma fold_put_row_keys:
  "set (lru_keys (fold put_row rows c)) \<subseteq> set (lru_keys c) \<union> snd ` set rows \<and>
   (distinct (lru_keys c) \<longrightarrow> distinct (lru_keys (fold put_row rows c)))"
  using fold_put_keys_subset [of "map (\<lambda>r. (snd r, fst r)) rows" c]
    fold_put_distinct [of c "map (\<lambda>r. (snd r, fst r)) rows"]
  by (simp add: fold_put_row_entries image_image)

lemma fetch_chunks_id_map:
  "fetch_chunks chunks res m s = (r, m', s') \<Longrightarrow>
   \<exists>rows. id_map m' = fold put_row rows (id_map m) \<and> snd ` set rows \<subseteq> set (concat chunks)"
proof (induction chunks arbitrary: res m s)
  case Nil
  then have "id_map m' = fold put_row [] (id_map m)" by simp
  then show ?case by (intro exI [of _ "[]"]) simp
next
  case (Cons c chunks)
  obtain r1 s1 where e: "execute_stmt_lambda_element s (find_event_type_ids c) = (r1, s1)"
    by (cases "execute_stmt_lambda_element s (find_event_type_ids c)")
  show ?case
  proof (cases r1)
    case (Inl err)
    with Cons.prems e have "id_map m' = fold put_row [] (id_map m)" by simp
    then show ?thesis by (intro exI [of _ "[]"]) simp
  next
    case (Inr rows)
    have rows: "rows = run_stmt (find_event_type_ids c) (table s)"
      using execute_facts(4) [OF e Inr] .
    let ?res1 = "res ++ map_of (rev (map row_entry rows))"
    let ?m1 = "m\<lparr>id_map := fold put_row rows (id_map m)\<rparr>"
    have "fetch_chunks chunks ?res1 ?m1 s1 = (r, m', s')"
      using Cons.prems e Inr by (simp add: store_rows_eq)
    from Cons.IH [OF this] obtain rows2 where
      r2: "id_map m' = fold put_row rows2 (id_map ?m1)" "snd ` set rows2 \<subseteq> set (concat chunks)"
      by blast
    have "id_map m' = fold put_row (rows @ rows2) (id_map m)" using r2(1) by simp
    moreover have "snd ` set (rows @ rows2) \<subseteq> set (concat (c # chunks))"
      using r2(2) by (auto simp: rows)
    ultimately show ?thesis by blast
  qed
qed

lemma concat_chunked_subset: "set (concat (chunked xs n)) \<subseteq> set xs"
proof (cases "n = 0")
  case True
  then show ?thesis by (simp add: chunked_zero)
next
  case False
  then show ?thesis by (simp add: concat_chunked)
qed

lemma unresolved_keys:
  "et \<in> set (unresolved ets m) \<Longrightarrow>
   et \<notin> set (lru_keys (id_map m)) \<and> et \<notin> set (lru_keys (non_existent_event_types m))"
  by (auto simp: unresolved_def lru_contains_def lru_peek_def lru_keys_def map_of_eq_None_iff)

lemma wf_init: "wf_manager init_manager"
  by (simp add: wf_manager_def init_manager_def LRU_new_def lru_keys_def)

lemma wf_put_rows:
  assumes wf: "wf_manager m"
    and un: "snd ` set rows \<subseteq> set (unresolved ets m)"
    and idm: "id_map m2 = fold put_row rows (fold refresh ets (id_map m))"
    and fr: "non_existent_event_types m2 = non_existent_event_types m" "pending m2 = pending m"
  shows "wf_manager m2"
proof -
  note k1 = fold_refresh_keys [of ets "id_map m"]
  note k2 = fold_put_row_keys [of rows "fold refresh ets (id_map m)"]
  have keys: "set (lru_keys (id_map m2)) \<subseteq> set (lru_keys (id_map m)) \<union> snd ` set rows"
    using k1 k2 by (simp add: idm)
  have d: "distinct (lru_keys (id_map m2))"
    using wf k1 k2 by (simp add: idm wf_manager_def)
  have "x \<notin> set (lru_keys (non_existent_event_types m))" if "x \<in> set (lru_keys (id_map m2))" for x
  proof (cases "x \<in> set (lru_keys (id_map m))")
    case True
    then show ?thesis using wf by (auto simp: wf_manager_def)
  next
    case False
    then have "x \<in> set (unresolved ets m)" using that keys un by blast
    then show ?thesis using unresolved_keys by blast
  qed
  then have "set (lru_keys (id_map m2)) \<inter> set (lru_keys (non_existent_event_types m2)) = {}"
    unfolding fr by blast
  then show ?thesis using wf d fr by (simp add: wf_manager_def)
qed

lemma wf_fetch:
  assumes wf: "wf_manager m"
    and f: "fetch_chunks (chunked (unresolved ets m) M) res
              (m\<lparr>id_map := fold refresh ets (id_map m)\<rparr>) s = (r, m2, s2)"
  shows "wf_manager m2"
proof -
  obtain rows where idm: "id_map m2 = fold put_row rows (fold refresh ets (id_map m))"
    and sub: "snd ` set rows \<subseteq> set (concat (chunked (unresolved ets m) M))"
    using fetch_chunks_id_map [OF f] by auto
  have un: "snd ` set rows \<subseteq> set (unresolved ets m)"
    using sub concat_chunked_subset [of "unresolved ets m" M] by blast
  show ?thesis
    using wf un idm fetch_chunks_frame [OF f] by (intro wf_put_rows [of m rows ets m2]) simp_all
qed

lemma wf_handle_True:
  assumes wf: "wf_manager m2"
    and ne: "set ne \<inter> set (lru_keys (id_map m2)) = {}"
  shows "wf_manager (handle_non_existent_event_types ne True m2)"
proof -
  let ?c = "fold put_entry (map (\<lambda>et. (et, ())) ne) (non_existent_event_types m2)"
  have "set (lru_keys ?c) \<subseteq> set (lru_keys (non_existent_event_types m2)) \<union> set ne"
    using fold_put_keys_subset [of "map (\<lambda>et. (et, ())) ne" "non_existent_event_types m2"]
    by (simp add: image_image)
  moreover have "distinct (lru_keys ?c)"
    using wf by (intro fold_put_distinct) (simp add: wf_manager_def)
  ultimately show ?thesis
    using wf ne by (auto simp: wf_manager_def handle_True fold_put_names)
qed

lemma wf_get_many:
  assumes wf: "wf_manager m" and g: "get_many M ets s fr m = (r, m', s')"
  shows "wf_manager m'"
proof (cases rule: get_many_cases [where M=M and ets=ets and s=s and fr=fr and m=m])
  case cached
  then have "m' = m\<lparr>id_map := fold refresh ets (id_map m)\<rparr>" using g by simp
  then show ?thesis
    using wf fold_refresh_keys [of ets "id_map m"] by (simp add: wf_manager_def)
next
  case (raised err m2 s2)
  then have "m' = m2" using g by simp
  then show ?thesis using wf_fetch [OF wf raised(2)] by simp
next
  case (fetched res2 m2 s2)
  let ?ne = "filter (\<lambda>et. res2 et = Some None) (unresolved ets m)"
  let ?rows = "chunk_rows (table s) (chunked (unresolved ets m) M)"
  have w2: "wf_manager m2" by (rule wf_fetch [OF wf fetched(2)])
  have m': "m' = (if ?ne \<noteq> [] then handle_non_existent_event_types ?ne fr m2 else m2)"
    using fetched(3) g by simp
  show ?thesis
  proof (cases "?ne \<noteq> [] \<and> fr")
    case False
    then show ?thesis using w2 m' by (auto simp: handle_False wf_manager_def)
  next
    case True
    note i = fetch_chunks_Inr [OF fetched(2)]
    have idm2: "id_map m2 = fold put_row ?rows (fold refresh ets (id_map m))"
      using i by simp
    have keys: "set (lru_keys (id_map m2)) \<subseteq> set (lru_keys (id_map m)) \<union> snd ` set ?rows"
      using fold_refresh_keys [of ets "id_map m"]
        fold_put_row_keys [of ?rows "fold refresh ets (id_map m)"]
      by (simp add: idm2)
    have "x \<notin> set (lru_keys (id_map m2))" if x: "x \<in> set ?ne" for x
    proof -
      have u: "x \<in> set (unresolved ets m)" and n: "res2 x = Some None" using x by auto
      have "map_of (rev (map row_entry ?rows)) x = None"
      proof (cases "map_of (rev (map row_entry ?rows)) x")
        case None
        then show ?thesis .
      next
        case (Some v)
        then obtain j where "v = Some j" using map_of_row_entry_Some by blast
        then have "res2 x = Some (Some j)" using i Some by (simp add: map_add_def)
        with n show ?thesis by simp
      qed
      then have "x \<notin> snd ` set ?rows" unfolding map_of_row_entry_None .
      moreover have "x \<notin> set (lru_keys (id_map m))" using unresolved_keys [OF u] by simp
      ultimately show ?thesis using keys by blast
    qed
    then have "set ?ne \<inter> set (lru_keys (id_map m2)) = {}" by blast
    from wf_handle_True [OF w2 this] show ?thesis using True m' by simp
  qed
qed

lemma wf_get:
  assumes wf: "wf_manager m" and g: "get M et s fr m = (r, m', s')"
  shows "wf_manager m'"
proof -
  obtain r1 m1 s1 where g1: "get_many M [et] s False m = (r1, m1, s1)" by (rule prod_cases3)
  have "m' = m1"
    using g unfolding get_unfold [OF g1] by (simp split: sum.splits option.splits)
  then show ?thesis using wf_get_many [OF wf g1] by simp
qed

lemma dict_set_map_fst:
  "map fst (dict_set n r ps) =
     (if n \<in> set (map fst ps) then map fst ps else map fst ps @ [n])"
  by (induction ps) force+

lemma dict_set_keys:
  "set (map fst (dict_set n r ps)) = insert n (set (map fst ps)) \<and>
   (distinct (map fst ps) \<longrightarrow> distinct (map fst (dict_set n r ps)))"
  unfolding dict_set_map_fst by auto

lemma wf_add_pending:
  "wf_manager m \<Longrightarrow> add_pending db m = Inr m' \<Longrightarrow> wf_manager m'"
  using dict_set_keys [of _ db "pending m"]
  by (auto simp: wf_manager_def add_pending_def split: option.splits)

lemma wf_post_commit_pending: "wf_manager m \<Longrightarrow> wf_manager (post_commit_pending m)"
proof -
  assume wf: "wf_manager m"
  let ?kvs = "map id_entry (pending m)"
  let ?names = "map fst (pending m)"
  have k: "fst ` set ?kvs = set ?names" by (simp add: image_image id_entry_def)
  have a: "set (lru_keys (fold put_entry ?kvs (id_map m))) \<subseteq> set (lru_keys (id_map m)) \<union> set ?names"
    using fold_put_keys_subset [of ?kvs "id_map m"] unfolding k .
  have b: "distinct (lru_keys (fold put_entry ?kvs (id_map m)))"
    using wf by (intro fold_put_distinct) (simp add: wf_manager_def)
  have c: "lru_keys (fold lru_pop ?names (non_existent_event_types m)) =
        filter (\<lambda>x. x \<notin> set ?names) (lru_keys (non_existent_event_types m))"
    by (simp add: fold_lru_pop lru_keys_def filter_map comp_def)
  show ?thesis
    using wf a b unfolding wf_manager_def post_commit_pending_def
    by (auto simp: post_commit_loop_frame post_commit_loop_id_map c)
qed

lemma wf_evict_purged: "wf_manager m \<Longrightarrow> wf_manager (evict_purged ets m)"
proof -
  assume wf: "wf_manager m"
  have c: "lru_keys (fold lru_pop ets (id_map m)) =
        filter (\<lambda>x. x \<notin> set ets) (lru_keys (id_map m))"
    by (simp add: fold_lru_pop lru_keys_def filter_map comp_def)
  show ?thesis using wf by (auto simp: wf_manager_def evict_purged_def c)
qed

lemma reachable_wf: "reachable m \<Longrightarrow> wf_manager m"
proof (induction rule: reachable.induct)
  case init
  show ?case by (rule wf_init)
next
  case (get_many m M ets s fr r m' s')
  then show ?case using wf_get_many by blast
next
  case (get m M et s fr r m' s')
  then show ?case using wf_get by blast
next
  case (add_pending m db m')
  then show ?case using wf_add_pending by blast
next
  case (post_commit_pending m)
  then show ?case using wf_post_commit_pending by blast
next
  case (evict_purged m ets)
  then show ?case using wf_evict_purged by blast
qed

subsection \<open>A resolved name is cached\<close>




section \<open>Evaluations on concrete inputs\<close>

lemma chunked_eval: "chunked [''a'', ''b'', ''c''] 2 = [[''a'', ''b''], [''c'']]"
  by (simp add: chunked.simps take_n_def)

lemma get_miss_eval:
  "get 990 ''x'' empty_store True init_manager =
    (Inr None, init_manager\<lparr>queue := [RefreshEventTypesTask [''x'']]\<rparr>,
     empty_store\<lparr>trace := [Executed (find_event_type_ids [''x''])]\<rparr>)"
  by (simp add: get_def get_many_def get_initial_results_and_missing_def
      fetch_missing_event_ids_from_db_def chunked.simps take_n_def execute_unfold
      init_manager_def LRU_new_def lru_get_def lru_contains_def lru_keys_def empty_store_def
      handle_non_existent_event_types_def Let_def)

lemma get_many_absent_eval:
  "get_many 990 [''x''] empty_store True init_manager =
     (Inr [''x'' \<mapsto> None], neg_x, empty_store\<lparr>trace := [Executed (find_event_type_ids [''x''])]\<rparr>)"
  by (simp add: get_many_def get_initial_results_and_missing_def
      fetch_missing_event_ids_from_db_def chunked.simps take_n_def execute_unfold
      init_manager_def LRU_new_def lru_get_def lru_contains_def lru_keys_def empty_store_def
      handle_non_existent_event_types_def Let_def neg_x_def lru_put_def CACHE_SIZE_def)

lemmas eval_defs = get_many_def get_initial_results_and_missing_def
      fetch_missing_event_ids_from_db_def chunked.simps take_n_def execute_unfold
      init_manager_def LRU_new_def lru_get_def lru_contains_def lru_keys_def empty_store_def
      handle_non_existent_event_types_def Let_def lru_put_def CACHE_SIZE_def small_store_def
      lru_remove_def executed_def

lemma type_name_inj: "type_name i = type_name j \<longleftrightarrow> i = j"
proof
  assume "type_name i = type_name j"
  then have "length (type_name i) = length (type_name j)" by simp
  then show "i = j" by (simp add: type_name_def)
qed simp

lemma register_numbered:
  "fold register (map numbered_type [0..<k]) init_manager =
     init_manager\<lparr>pending := map numbered_entry [0..<k]\<rparr>"
proof (induction k)
  case 0
  show ?case by (simp add: init_manager_def)
next
  case (Suc k)
  have fresh: "type_name k \<notin> fst ` set (map numbered_entry [0..<k])"
    by (auto simp: numbered_entry_def type_name_inj)
  have "register (numbered_type k) (init_manager\<lparr>pending := map numbered_entry [0..<k]\<rparr>) =
        init_manager\<lparr>pending := map numbered_entry [0..<k] @ [numbered_entry k]\<rparr>"
    using dict_set_fresh [OF fresh, of "numbered_type k"]
    by (simp add: register_def add_pending_def numbered_type_def numbered_entry_def)
  then show ?case by (simp add: Suc.IH)
qed

lemma many_pending_eq: "many_pending = init_manager\<lparr>pending := map numbered_entry [0..<MANY]\<rparr>"
  unfolding many_pending_def by (rule register_numbered)

lemma reachable_cached_a: "reachable cached_a"
proof -
  obtain r m' s' where g: "get_many 990 [''a'', ''b''] store_ab False init_manager = (r, m', s')"
    by (rule prod_cases3)
  have "m' = cached_a"
    using g by (auto simp: eval_defs store_ab_def cached_a_def)
  then show ?thesis using reachable.get_many [OF reachable.init g] by simp
qed


section \<open>Pending names and the negative cache\<close>

text \<open>
  Claim C1, as stated, fails. \<^verbatim>\<open>add_pending\<close> does not touch the negative cache: after a
  lookup from the recorder has recorded \<open>x\<close> as non-existent, \<^verbatim>\<open>add_pending\<close> of a record
  named \<open>x\<close> leaves \<open>x\<close> both in the pending map and in the negative cache.
\<close>

theorem pending_and_negative_cache_counterexample:
  "fst (snd (get_many 990 [''x''] empty_store True init_manager)) = neg_x \<and>
   add_pending \<lparr>event_type_id = 1, event_type = Some ''x''\<rparr> neg_x =
     Inr (neg_x\<lparr>pending := [(''x'', \<lparr>event_type_id = 1, event_type = Some ''x''\<rparr>)]\<rparr>) \<and>
   ''x'' \<in> fst ` set (pending
      (neg_x\<lparr>pending := [(''x'', \<lparr>event_type_id = 1, event_type = Some ''x''\<rparr>)]\<rparr>)) \<and>
   lru_contains ''x'' (non_existent_event_types
      (neg_x\<lparr>pending := [(''x'', \<lparr>event_type_id = 1, event_type = Some ''x''\<rparr>)]\<rparr>))"
  by (simp add: get_many_absent_eval)
    (simp add: add_pending_def neg_x_def init_manager_def lru_contains_def lru_keys_def)

text \<open>
  Claim C1, amended. \<^verbatim>\<open>add_pending\<close> leaves the negative cache as it is; it is
  \<^verbatim>\<open>post_commit_pending\<close> that removes every pending name from the negative cache, and
  it empties the pending map. So no pending name is in the negative cache right after
  \<^verbatim>\<open>post_commit_pending\<close>, while between \<^verbatim>\<open>add_pending\<close> and the commit a name can be in
  both.
\<close>

theorem negative_entry_cleared_at_commit:
  "(\<forall>m'. add_pending r m = Inr m' \<longrightarrow>
      non_existent_event_types m' = non_existent_event_types m) \<and>
   pending (post_commit_pending m) = [] \<and>
   (\<forall>et\<in>fst ` set (pending m).
      \<not> lru_contains et (non_existent_event_types (post_commit_pending m)))"
proof (intro conjI allI impI ballI)
  fix m'
  assume "add_pending r m = Inr m'"
  then show "non_existent_event_types m' = non_existent_event_types m"
    by (auto simp: add_pending_def split: option.splits)
next
  show "pending (post_commit_pending m) = []" by (simp add: post_commit_pending_def)
next
  fix et
  assume "et \<in> fst ` set (pending m)"
  then show "\<not> lru_contains et (non_existent_event_types (post_commit_pending m))"
    by (force simp: post_commit_pending_def post_commit_loop_frame fold_lru_pop
        lru_contains_def lru_keys_def)
qed

text \<open>
  Witness of the amended C1, on the state of the counterexample.
\<close>

theorem negative_entry_cleared_at_commit_witness:
  "add_pending \<lparr>event_type_id = 1, event_type = Some ''x''\<rparr> neg_x =
     Inr (neg_x\<lparr>pending := [(''x'', \<lparr>event_type_id = 1, event_type = Some ''x''\<rparr>)]\<rparr>) \<and>
   lru_contains ''x'' (non_existent_event_types
     (neg_x\<lparr>pending := [(''x'', \<lparr>event_type_id = 1, event_type = Some ''x''\<rparr>)]\<rparr>)) \<and>
   ''x'' \<in> fst ` set (pending
     (neg_x\<lparr>pending := [(''x'', \<lparr>event_type_id = 1, event_type = Some ''x''\<rparr>)]\<rparr>)) \<and>
   pending (post_commit_pending
     (neg_x\<lparr>pending := [(''x'', \<lparr>event_type_id = 1, event_type = Some ''x''\<rparr>)]\<rparr>)) = [] \<and>
   \<not> lru_contains ''x'' (non_existent_event_types (post_commit_pending
     (neg_x\<lparr>pending := [(''x'', \<lparr>event_type_id = 1, event_type = Some ''x''\<rparr>)]\<rparr>)))"
proof -
  let ?r = "\<lparr>event_type_id = 1, event_type = Some ''x''\<rparr>"
  let ?m = "neg_x\<lparr>pending := [(''x'', ?r)]\<rparr>"
  have a: "add_pending ?r neg_x = Inr ?m" by (simp add: add_pending_def neg_x_def init_manager_def)
  have n: "non_existent_event_types ?m = non_existent_event_types neg_x"
    using negative_entry_cleared_at_commit [of ?r neg_x] a by blast
  have c: "lru_contains ''x'' (non_existent_event_types ?m)"
    unfolding n by (simp add: neg_x_def lru_contains_def lru_keys_def)
  have p: "''x'' \<in> fst ` set (pending ?m)" by simp
  note t = negative_entry_cleared_at_commit [of ?r ?m]
  have e: "pending (post_commit_pending ?m) = []" using t by blast
  have d: "\<not> lru_contains ''x'' (non_existent_event_types (post_commit_pending ?m))"
    using t p by blast
  show ?thesis using a c p e d by blast
qed

section \<open>Fatal and transient errors of a statement\<close>

text \<open>
  Claim C2, as stated, fails: a constraint violation (a \<^verbatim>\<open>SQLAlchemyError\<close> that
  \<^verbatim>\<open>_is_retryable_error\<close> rejects) raised by every attempt is retried twice, with
  two sleeps, before it reaches the caller.
\<close>

theorem fatal_error_retried_counterexample:
  "\<not> is_retryable_error MYSQL SQLAlchemyError \<and>
   execute_stmt_lambda_element (always_raises SQLAlchemyError) (find_event_type_ids [''a'']) =
     (Inl SQLAlchemyError,
      (always_raises SQLAlchemyError)\<lparr>trace :=
         [Executed (find_event_type_ids [''a'']), Slept (1 / 10),
          Executed (find_event_type_ids [''a'']), Slept (1 / 10),
          Executed (find_event_type_ids [''a''])]\<rparr>)"
  unfolding execute_unfold
  by (simp add: always_raises_def executed_def RETRIES_def QUERY_RETRY_WAIT_def)

text \<open>
  Claim C2, amended. \<^verbatim>\<open>execute_stmt_lambda_element\<close> does not classify errors as
  retryable or fatal: an exception that is no \<^verbatim>\<open>SQLAlchemyError\<close> reaches the caller at
  once, after one attempt and no sleep, while every \<^verbatim>\<open>SQLAlchemyError\<close> raised by the
  first or by the second attempt, retryable or not, is followed by a sleep of
  \<open>QUERY_RETRY_WAIT\<close> and a further attempt.
\<close>

theorem only_other_exceptions_propagate_immediately:
  "(raises s (executed s) = Some e \<and> \<not> is_SQLAlchemyError e \<longrightarrow>
      execute_stmt_lambda_element s q = (Inl e, s\<lparr>trace := trace s @ [Executed q]\<rparr>)) \<and>
   (raises s (executed s) = Some e \<and> is_SQLAlchemyError e \<longrightarrow>
      (\<exists>rest. trace (snd (execute_stmt_lambda_element s q)) =
         trace s @ Executed q # Slept QUERY_RETRY_WAIT # Executed q # rest)) \<and>
   (raises s (executed s) = Some e \<and> is_SQLAlchemyError e \<and>
    raises s (executed s + 1) = Some e' \<and> is_SQLAlchemyError e' \<longrightarrow>
      (\<exists>rest. trace (snd (execute_stmt_lambda_element s q)) =
         trace s @ Executed q # Slept QUERY_RETRY_WAIT # Executed q # Slept QUERY_RETRY_WAIT #
           Executed q # rest))"
proof (intro conjI impI)
  assume "raises s (executed s) = Some e \<and> \<not> is_SQLAlchemyError e"
  then show "execute_stmt_lambda_element s q = (Inl e, s\<lparr>trace := trace s @ [Executed q]\<rparr>)"
    by (simp add: execute_unfold)
next
  assume a: "raises s (executed s) = Some e \<and> is_SQLAlchemyError e"
  let ?s1 = "s\<lparr>trace := trace s @ [Executed q, Slept QUERY_RETRY_WAIT]\<rparr>"
  have step: "execute_stmt_lambda_element s q = execute_loop [1, 2] q ?s1"
    unfolding execute_unfold
    by (rule execute_loop_retry [of s e]) (use a in \<open>simp_all add: RETRIES_def\<close>)
  obtain rest where "trace (snd (execute_loop [1, 2] q ?s1)) = trace ?s1 @ Executed q # rest"
    using execute_loop_first [of "[1, 2]" q ?s1] by auto
  then show "\<exists>rest. trace (snd (execute_stmt_lambda_element s q)) =
         trace s @ Executed q # Slept QUERY_RETRY_WAIT # Executed q # rest"
    unfolding step by simp
next
  assume a: "raises s (executed s) = Some e \<and> is_SQLAlchemyError e \<and>
    raises s (executed s + 1) = Some e' \<and> is_SQLAlchemyError e'"
  let ?s1 = "s\<lparr>trace := trace s @ [Executed q, Slept QUERY_RETRY_WAIT]\<rparr>"
  let ?s2 = "?s1\<lparr>trace := trace ?s1 @ [Executed q, Slept QUERY_RETRY_WAIT]\<rparr>"
  have step1: "execute_stmt_lambda_element s q = execute_loop [1, 2] q ?s1"
    unfolding execute_unfold
    by (rule execute_loop_retry [of s e]) (use a in \<open>simp_all add: RETRIES_def\<close>)
  have ex1: "executed ?s1 = executed s + 1" by (simp add: executed_def)
  have step2: "execute_loop [1, 2] q ?s1 = execute_loop [2] q ?s2"
    by (rule execute_loop_retry [of ?s1 e']) (use a ex1 in \<open>simp_all add: RETRIES_def\<close>)
  obtain rest where "trace (snd (execute_loop [2] q ?s2)) = trace ?s2 @ Executed q # rest"
    using execute_loop_first [of "[2]" q ?s2] by auto
  then show "\<exists>rest. trace (snd (execute_stmt_lambda_element s q)) =
         trace s @ Executed q # Slept QUERY_RETRY_WAIT # Executed q # Slept QUERY_RETRY_WAIT #
           Executed q # rest"
    unfolding step1 step2 by simp
qed

text \<open>
  Witness of the amended C2: an exception that is no \<^verbatim>\<open>SQLAlchemyError\<close>, and a MySQL
  syntax error (code 1064), which is not retryable and is attempted three times.
\<close>

theorem only_other_exceptions_propagate_immediately_witness:
  "execute_stmt_lambda_element (always_raises OtherException) (find_event_type_ids [''a'']) =
     (Inl OtherException,
      (always_raises OtherException)\<lparr>trace := [Executed (find_event_type_ids [''a''])]\<rparr>) \<and>
   \<not> is_retryable_error MYSQL (OperationalError (Some 1064)) \<and>
   (\<exists>rest. trace (snd (execute_stmt_lambda_element (always_raises (OperationalError (Some 1064)))
                        (find_event_type_ids [''a'']))) =
      Executed (find_event_type_ids [''a'']) # Slept QUERY_RETRY_WAIT #
      Executed (find_event_type_ids [''a'']) # Slept QUERY_RETRY_WAIT #
      Executed (find_event_type_ids [''a'']) # rest)"
  using only_other_exceptions_propagate_immediately [of "always_raises OtherException"
      OtherException "find_event_type_ids [''a'']"]
    only_other_exceptions_propagate_immediately [of "always_raises (OperationalError (Some 1064))"
      "OperationalError (Some 1064)" "find_event_type_ids [''a'']" "OperationalError (Some 1064)"]
  by (simp add: always_raises_def executed_def RETRYABLE_MYSQL_ERRORS_def)

section \<open>Names that the store does not have\<close>

text \<open>
  Claim C3. Let a call of \<^verbatim>\<open>get_many\<close> return, with a positive maximum of bind
  parameters, and let some unresolved names have no row in the store. With
  \<^verbatim>\<open>from_recorder=True\<close> every such name, in the order of the call, is put into the
  negative cache and no task is queued; all of them are in the negative cache afterwards
  when their number does not exceed its capacity. With \<^verbatim>\<open>from_recorder=False\<close> the
  negative cache is unchanged and exactly one task is queued, which carries all these
  names.
\<close>

theorem absent_names_recorded_or_refreshed:
  assumes M: "0 < M"
    and g: "get_many M names s from_recorder m = (Inr res, m', s')"
    and ab: "absent_names names m s \<noteq> []"
  shows "(from_recorder \<longrightarrow>
            non_existent_event_types m' =
              fold (\<lambda>et c. lru_put et () c) (absent_names names m s) (non_existent_event_types m) \<and>
            queue m' = queue m \<and>
            (distinct (lru_keys (non_existent_event_types m)) \<and>
             card (set (absent_names names m s)) \<le> lru_size (non_existent_event_types m) \<longrightarrow>
               (\<forall>et\<in>set (absent_names names m s).
                  lru_contains et (non_existent_event_types m')))) \<and>
         (\<not> from_recorder \<longrightarrow>
            non_existent_event_types m' = non_existent_event_types m \<and>
            queue m' = queue m @ [RefreshEventTypesTask (absent_names names m s)])"
proof -
  let ?ab = "absent_names names m s"
  obtain m2 where m': "m' = handle_non_existent_event_types ?ab from_recorder m2"
    and n2: "non_existent_event_types m2 = non_existent_event_types m"
    and q2: "queue m2 = queue m"
    using get_many_absent [OF M g ab] by blast
  have t: "non_existent_event_types m' =
              fold (\<lambda>et c. lru_put et () c) ?ab (non_existent_event_types m) \<and>
           queue m' = queue m" if from_recorder
    using that by (simp add: m' handle_True n2 q2)
  have mem: "lru_contains et (non_existent_event_types m')"
    if from_recorder and d: "distinct (lru_keys (non_existent_event_types m))"
      and c: "card (set ?ab) \<le> lru_size (non_existent_event_types m)"
      and et: "et \<in> set ?ab" for et
  proof -
    let ?kvs = "map (\<lambda>et. (et, ())) ?ab"
    have k: "fst ` set ?kvs = set ?ab" by (simp add: image_image)
    have "lru_contains et (fold put_entry ?kvs (non_existent_event_types m))"
      by (rule fold_put_all_present [OF d]) (simp_all only: k c et)
    then show ?thesis using t [OF that(1)] by (simp add: fold_put_names)
  qed
  have f: "non_existent_event_types m' = non_existent_event_types m \<and>
            queue m' = queue m @ [RefreshEventTypesTask ?ab]" if "\<not> from_recorder"
    using that by (simp add: m' handle_False n2 q2)
  show ?thesis using t mem f by blast
qed

text \<open>
  Witness of C3: one name that the store has and one that it does not have.
\<close>

theorem absent_names_recorded_or_refreshed_witness:
  "0 < (990::nat) \<and> absent_names [''a'', ''x''] init_manager small_store = [''x''] \<and>
   lru_contains ''x'' (non_existent_event_types
     (fst (snd (get_many 990 [''a'', ''x''] small_store True init_manager)))) \<and>
   non_existent_event_types
     (fst (snd (get_many 990 [''a'', ''x''] small_store False init_manager))) =
     non_existent_event_types init_manager \<and>
   queue (fst (snd (get_many 990 [''a'', ''x''] small_store False init_manager))) =
     [RefreshEventTypesTask [''x'']]"
proof -
  have M: "0 < (990::nat)" by simp
  have ab: "absent_names [''a'', ''x''] init_manager small_store = [''x'']"
    by (simp add: absent_names_def unresolved_def lru_peek_def eval_defs)
  then have ne: "absent_names [''a'', ''x''] init_manager small_store \<noteq> []" by simp
  have d: "distinct (lru_keys (non_existent_event_types init_manager))"
    and c: "card (set (absent_names [''a'', ''x''] init_manager small_store)) \<le>
            lru_size (non_existent_event_types init_manager)"
    unfolding ab by (simp_all add: init_manager_def LRU_new_def lru_keys_def CACHE_SIZE_def)
  obtain r1 m1 s1 where g1: "get_many 990 [''a'', ''x''] small_store True init_manager = (r1, m1, s1)"
    by (rule prod_cases3)
  have "\<exists>res. r1 = Inr res" using g1 by (auto simp: eval_defs)
  then obtain res1 where g1': "get_many 990 [''a'', ''x''] small_store True init_manager = (Inr res1, m1, s1)"
    using g1 by blast
  have "\<forall>et\<in>set (absent_names [''a'', ''x''] init_manager small_store).
          lru_contains et (non_existent_event_types m1)"
    using absent_names_recorded_or_refreshed [OF M g1' ne] d c by blast
  then have "lru_contains ''x'' (non_existent_event_types m1)"
    unfolding ab by simp
  then have a: "lru_contains ''x'' (non_existent_event_types
     (fst (snd (get_many 990 [''a'', ''x''] small_store True init_manager))))"
    by (simp add: g1')
  obtain r2 m2 s2 where g2: "get_many 990 [''a'', ''x''] small_store False init_manager = (r2, m2, s2)"
    by (rule prod_cases3)
  have "\<exists>res. r2 = Inr res" using g2 by (auto simp: eval_defs)
  then obtain res2 where g2': "get_many 990 [''a'', ''x''] small_store False init_manager = (Inr res2, m2, s2)"
    using g2 by blast
  have "non_existent_event_types m2 = non_existent_event_types init_manager \<and>
        queue m2 = queue init_manager @
          [RefreshEventTypesTask (absent_names [''a'', ''x''] init_manager small_store)]"
    using absent_names_recorded_or_refreshed [OF M g2' ne] by blast
  then have b: "non_existent_event_types
     (fst (snd (get_many 990 [''a'', ''x''] small_store False init_manager))) =
     non_existent_event_types init_manager \<and>
   queue (fst (snd (get_many 990 [''a'', ''x''] small_store False init_manager))) =
     [RefreshEventTypesTask [''x'']]"
    unfolding ab g2' by (simp add: init_manager_def)
  show ?thesis using M ab a b by blast
qed

section \<open>From the pending map to the id cache\<close>

text \<open>
  Claim C4, as stated, fails when the name is already pending and at least
  \<open>CACHE_SIZE\<close> other names were registered after it. A dict keeps the position of a
  key that is assigned again, so \<^verbatim>\<open>post_commit_pending\<close> writes the id of the record first
  and then \<open>CACHE_SIZE\<close> further entries, which evict it from the id cache: with
  \<open>CACHE_SIZE + 1\<close> pending names, the first of them, \<open>a\<close>, registered once more, is
  not in the id cache after the commit.
\<close>

theorem readded_name_evicted_counterexample:
  "add_pending (numbered_type 0) many_pending = Inr many_pending \<and>
   event_type (numbered_type 0) = Some ''a'' \<and>
   lru_peek ''a'' (id_map (post_commit_pending many_pending)) = None"
proof -
  have split: "[0..<MANY] = 0 # [1..<MANY]" by (simp add: upt_conv_Cons MANY_def)
  have n0: "type_name 0 = ''a''" by (simp add: type_name_def)
  have pend: "pending many_pending = numbered_entry 0 # map numbered_entry [1..<MANY]"
    by (simp add: many_pending_eq split)
  have "dict_set (type_name 0) (numbered_type 0) (pending many_pending) = pending many_pending"
    unfolding pend by (simp add: numbered_entry_def)
  then have a: "add_pending (numbered_type 0) many_pending = Inr many_pending"
    by (simp add: add_pending_def numbered_type_def)
  let ?B = "map id_entry (map numbered_entry [1..<MANY])"
  let ?c = "put_entry (id_entry (numbered_entry 0)) (id_map init_manager)"
  have im: "id_map many_pending = id_map init_manager" by (simp add: many_pending_eq)
  have idm: "id_map (post_commit_pending many_pending) = fold put_entry ?B ?c"
    by (simp add: post_commit_pending_def post_commit_loop_id_map pend im)
  have items: "lru_items ?c = [] @ (''a'', 0) # []"
    by (simp add: put_entry_def id_entry_def numbered_entry_def numbered_type_def n0
        init_manager_def LRU_new_def lru_put_def lru_contains_def lru_keys_def CACHE_SIZE_def)
  have size: "lru_size ?c = CACHE_SIZE"
    by (simp add: put_entry_def lru_put_size init_manager_def LRU_new_def)
  have keysB: "map fst ?B = map type_name [1..<MANY]"
    by (simp add: id_entry_def numbered_entry_def)
  have dB: "distinct (map fst ?B)"
    unfolding keysB by (simp add: distinct_map inj_on_def type_name_inj)
  have "''a'' \<notin> set (map fst ?B)"
    unfolding keysB n0 [symmetric] by (auto simp: type_name_inj)
  then have disj: "fst ` set ?B \<inter> insert ''a'' (fst ` set []) = {}"
    by (simp only: set_map [symmetric]) simp
  have "''a'' \<notin> set (lru_keys (fold put_entry ?B ?c))"
  proof (rule lru_evicts [OF items _ _ dB disj])
    show "distinct (map fst (lru_items ?c))" unfolding items by simp
    show "length (lru_items ?c) \<le> lru_size ?c" unfolding items size by (simp add: CACHE_SIZE_def)
    show "lru_size ?c \<le> length ([] :: (string \<times> int) list) + length ?B"
      unfolding size by (simp add: MANY_def)
  qed
  then have p: "lru_peek ''a'' (id_map (post_commit_pending many_pending)) = None"
    unfolding idm by (simp add: lru_peek_def lru_keys_def map_of_eq_None_iff)
  have e: "event_type (numbered_type 0) = Some ''a''" by (simp add: numbered_type_def n0)
  show ?thesis using a e p by blast
qed

text \<open>
  Claim C4, amended. Let the pending map be a dict (its keys are distinct), the keys of
  the id cache be distinct, and fewer than \<open>CACHE_SIZE\<close> (the capacity of the id cache)
  names follow the name of the record in the pending map; no name follows it when the
  name was not pending before. Then after \<^verbatim>\<open>add_pending\<close> of the record and
  \<^verbatim>\<open>post_commit_pending\<close> the id cache maps the name to the id of the record, the name
  is not in the negative cache, the pending map is empty, and a following \<^verbatim>\<open>get\<close> of
  the name returns the id and leaves the session untouched.
\<close>

theorem pending_to_cache_handoff:
  assumes name: "event_type r = Some n"
    and dp: "distinct (map fst (pending m))"
    and dc: "distinct (lru_keys (id_map m))"
    and few: "length (pending_after n (pending m)) < lru_size (id_map m)"
  shows "\<exists>m1. add_pending r m = Inr m1 \<and>
           lru_peek n (id_map (post_commit_pending m1)) = Some (event_type_id r) \<and>
           \<not> lru_contains n (non_existent_event_types (post_commit_pending m1)) \<and>
           pending (post_commit_pending m1) = [] \<and>
           (\<exists>m3. get M n s fr (post_commit_pending m1) = (Inr (Some (event_type_id r)), m3, s))"
proof -
  let ?A = "takeWhile (\<lambda>p. fst p \<noteq> n) (pending m)"
  let ?B = "pending_after n (pending m)"
  let ?m1 = "m\<lparr>pending := dict_set n r (pending m)\<rparr>"
  let ?m2 = "post_commit_pending ?m1"
  have a: "add_pending r m = Inr ?m1" using name by (simp add: add_pending_def)
  let ?c0 = "fold put_entry (map id_entry ?A) (id_map m)"
  let ?c1 = "put_entry (n, event_type_id r) ?c0"
  have idm: "id_map ?m2 = fold put_entry (map id_entry ?B) ?c1"
    by (simp add: post_commit_pending_def post_commit_loop_id_map dict_set_split [of n r]
        id_entry_def)
  obtain rest where "lru_items ?c1 = (n, event_type_id r) # rest"
    using lru_put_front [of n "event_type_id r" ?c0] by (auto simp: put_entry_def)
  then have i1: "lru_items ?c1 = [] @ (n, event_type_id r) # rest" by simp
  have d1: "distinct (map fst (lru_items ?c1))"
    using fold_put_distinct [OF dc, of "map id_entry ?A @ [(n, event_type_id r)]"]
    by (simp add: lru_keys_def)
  have keys: "fst ` set (map id_entry ?B) = fst ` set ?B"
    by (simp add: image_image id_entry_def)
  have n2: "n \<notin> fst ` set (map id_entry ?B)"
    unfolding keys using pending_after_keys [OF dp] .
  have "card (fst ` set ?B) \<le> length ?B"
    by (metis card_image_le card_length le_trans List.finite_set)
  then have c1: "card (set (map fst []) \<union> fst ` set (map id_entry ?B)) < lru_size ?c1"
    unfolding keys using few by (simp add: put_entry_def lru_put_size fold_put_size)
  have peek: "lru_peek n (id_map ?m2) = Some (event_type_id r)"
    unfolding idm by (rule lru_keeps [OF i1 d1 n2 c1])
  have "n \<in> fst ` set (dict_set n r (pending m))"
    by (simp add: dict_set_split [of n r])
  then have neg: "\<not> lru_contains n (non_existent_event_types ?m2)"
    by (force simp: post_commit_pending_def post_commit_loop_frame fold_lru_pop
        lru_contains_def lru_keys_def)
  have pe: "pending ?m2 = []" by (simp add: post_commit_pending_def)
  have g: "\<exists>m3. get M n s fr ?m2 = (Inr (Some (event_type_id r)), m3, s)"
    using get_cached [OF peek] by blast
  show ?thesis using a peek neg pe g by blast
qed

text \<open>
  Witness of the amended C4: a record for a name that is in the negative cache.
\<close>

theorem pending_to_cache_handoff_witness:
  "event_type \<lparr>event_type_id = 7, event_type = Some ''x''\<rparr> = Some ''x'' \<and>
   length (pending_after ''x'' (pending neg_x)) < lru_size (id_map neg_x) \<and>
   lru_contains ''x'' (non_existent_event_types neg_x) \<and>
   (\<exists>m1. add_pending \<lparr>event_type_id = 7, event_type = Some ''x''\<rparr> neg_x = Inr m1 \<and>
      lru_peek ''x'' (id_map (post_commit_pending m1)) = Some 7 \<and>
      \<not> lru_contains ''x'' (non_existent_event_types (post_commit_pending m1)) \<and>
      pending (post_commit_pending m1) = [] \<and>
      (\<exists>m3. get 990 ''x'' empty_store False (post_commit_pending m1) =
         (Inr (Some 7), m3, empty_store)))"
proof -
  let ?r = "\<lparr>event_type_id = 7, event_type = Some ''x''\<rparr>"
  have name: "event_type ?r = Some ''x''" by simp
  have dp: "distinct (map fst (pending neg_x))"
    and dc: "distinct (lru_keys (id_map neg_x))"
    and few: "length (pending_after ''x'' (pending neg_x)) < lru_size (id_map neg_x)"
    and c: "lru_contains ''x'' (non_existent_event_types neg_x)"
    by (simp_all add: neg_x_def init_manager_def LRU_new_def lru_keys_def pending_after_def
        CACHE_SIZE_def lru_contains_def)
  note t = pending_to_cache_handoff [OF name dp dc few, of 990 empty_store False]
  show ?thesis using name few c t by simp
qed

section \<open>Resolution of a single name\<close>

text \<open>
  Claim C5. \<^verbatim>\<open>get\<close> does not forward its argument \<^verbatim>\<open>from_recorder\<close>: for either
  value it is \<^verbatim>\<open>get_many((event_type,), session)\<close> with the default \<open>False\<close>,
  followed by the subscript of the returned dict, which never fails; it has the same
  effect on the manager and on the session. So it never changes the negative cache,
  and when it resolves a name that is not negatively cached to absent, it queues one
  refresh task for that name.
\<close>

theorem get_ignores_from_recorder:
  "get M et s fr m = get M et s False m \<and>
   (case get_many M [et] s False m of
      (Inl err, m', s') \<Rightarrow> get M et s fr m = (Inl err, m', s')
    | (Inr res, m', s') \<Rightarrow> (\<exists>v. res et = Some v \<and> get M et s fr m = (Inr v, m', s'))) \<and>
   non_existent_event_types (fst (snd (get M et s fr m))) = non_existent_event_types m \<and>
   (\<forall>m' s'. \<not> lru_contains et (non_existent_event_types m) \<longrightarrow>
       get M et s fr m = (Inr None, m', s') \<longrightarrow>
       queue m' = queue m @ [RefreshEventTypesTask [et]])"
proof -
  obtain r m1 s1 where g: "get_many M [et] s False m = (r, m1, s1)" by (rule prod_cases3)
  note gu = get_unfold [OF g, of fr]
  have a: "get M et s fr m = get M et s False m" by (simp add: get_def)
  have b: "case get_many M [et] s False m of
      (Inl err, m', s') \<Rightarrow> get M et s fr m = (Inl err, m', s')
    | (Inr res, m', s') \<Rightarrow> (\<exists>v. res et = Some v \<and> get M et s fr m = (Inr v, m', s'))"
  proof (cases r)
    case (Inl err)
    show ?thesis unfolding g gu Inl by simp
  next
    case (Inr res)
    have "res et \<noteq> None" using get_many_dom [OF g [unfolded Inr], of et] by simp
    then obtain v where v: "res et = Some v" by blast
    show ?thesis unfolding g gu Inr by (simp add: v)
  qed
  have m1: "fst (snd (get M et s fr m)) = m1"
    unfolding gu by (simp split: sum.splits option.splits)
  have c: "non_existent_event_types (fst (snd (get M et s fr m))) = non_existent_event_types m"
    unfolding m1 using get_many_False_frame [of M "[et]" s m] g by simp
  have d: "queue m' = queue m @ [RefreshEventTypesTask [et]]"
    if nn: "\<not> lru_contains et (non_existent_event_types m)"
      and gt: "get M et s fr m = (Inr None, m', s')" for m' s'
  proof -
    have "\<exists>res. r = Inr res \<and> res et = Some None \<and> m1 = m' \<and> s1 = s'"
      using gt unfolding gu by (cases r; cases "(case r of Inr res \<Rightarrow> res et | Inl e \<Rightarrow> None)") auto
    then obtain res where g': "get_many M [et] s False m = (Inr res, m', s')"
      and r: "res et = Some None" using g by blast
    show ?thesis
    proof (cases rule: get_many_cases [where M=M and ets="[et]" and s=s and fr=False and m=m])
      case cached
      have "lru_peek et (id_map m) = None" using cached(2) g' r by (simp add: fun_eq_iff)
      with nn have "unresolved [et] m = [et]" by (simp add: unresolved_def)
      with cached(1) show ?thesis by simp
    next
      case (raised err m2 s2)
      with g' show ?thesis by simp
    next
      case (fetched res2 m2 s2)
      have u: "unresolved [et] m = [et]"
        using fetched(1) by (simp add: unresolved_def split: if_splits)
      have e: "res2 = res" using fetched(3) g' by simp
      have "filter (\<lambda>et. res2 et = Some None) (unresolved [et] m) = [et]"
        unfolding u e using r by simp
      then have "m' = m2\<lparr>queue := queue m2 @ [RefreshEventTypesTask [et]]\<rparr>"
        using fetched(3) g' by (simp add: handle_False)
      then show ?thesis using fetch_chunks_frame [OF fetched(2)] by simp
    qed
  qed
  show ?thesis using a b c d by blast
qed

text \<open>
  Witness of C5: a name that the store does not have, asked with
  \<^verbatim>\<open>from_recorder=True\<close>: the negative cache stays empty and a refresh task is queued.
\<close>

theorem get_ignores_from_recorder_witness:
  "\<not> lru_contains ''x'' (non_existent_event_types init_manager) \<and>
   get 990 ''x'' empty_store True init_manager =
    (Inr None, init_manager\<lparr>queue := [RefreshEventTypesTask [''x'']]\<rparr>,
     empty_store\<lparr>trace := [Executed (find_event_type_ids [''x''])]\<rparr>) \<and>
   queue (init_manager\<lparr>queue := [RefreshEventTypesTask [''x'']]\<rparr>) =
     queue init_manager @ [RefreshEventTypesTask [''x'']]"
  using get_ignores_from_recorder [of 990 "''x''" empty_store True init_manager] get_miss_eval
  by (simp add: init_manager_def LRU_new_def lru_contains_def lru_keys_def)

section \<open>Registration of a pending record\<close>

text \<open>
  Claim C6, as stated, fails: the assertion of \<^verbatim>\<open>add_pending\<close> tests the name against
  \<^verbatim>\<open>None\<close> only, so a record whose name is the empty string is registered.
\<close>

theorem add_pending_empty_name_counterexample:
  "add_pending \<lparr>event_type_id = 1, event_type = Some ''''\<rparr> init_manager =
     Inr (init_manager\<lparr>pending := [('''', \<lparr>event_type_id = 1, event_type = Some ''''\<rparr>)]\<rparr>)"
  by (simp add: add_pending_def init_manager_def)

text \<open>
  Claim C6, amended. \<^verbatim>\<open>add_pending\<close> raises \<^verbatim>\<open>AssertionError\<close>, and registers
  nothing, exactly for a record whose name is \<^verbatim>\<open>None\<close>; every record whose name is a
  string, the empty string included, is registered in the pending map under its name,
  and nothing else of the manager changes.
\<close>

theorem add_pending_asserts_not_None:
  "(event_type r = None \<longrightarrow> add_pending r m = Inl AssertionError) \<and>
   (\<forall>et. event_type r = Some et \<longrightarrow>
      add_pending r m = Inr (m\<lparr>pending := dict_set et r (pending m)\<rparr>) \<and>
      map_of (dict_set et r (pending m)) et = Some r)"
  by (simp add: add_pending_def map_of_dict_set)

text \<open>Witness of the amended C6: a record without a name, and one with a name.\<close>

theorem add_pending_asserts_not_None_witness:
  "add_pending \<lparr>event_type_id = 1, event_type = None\<rparr> init_manager = Inl AssertionError \<and>
   add_pending \<lparr>event_type_id = 2, event_type = Some ''state_changed''\<rparr> init_manager =
     Inr (init_manager\<lparr>pending :=
       [(''state_changed'', \<lparr>event_type_id = 2, event_type = Some ''state_changed''\<rparr>)]\<rparr>)"
  using add_pending_asserts_not_None [of "\<lparr>event_type_id = 1, event_type = None\<rparr>" init_manager]
    add_pending_asserts_not_None
      [of "\<lparr>event_type_id = 2, event_type = Some ''state_changed''\<rparr>" init_manager]
  by (simp add: init_manager_def)

section \<open>The bound of the retries\<close>

text \<open>
  Claim C7. When every attempt of one call of \<^verbatim>\<open>execute_stmt_lambda_element\<close> raises a
  retryable error, the call makes exactly \<open>RETRIES = 3\<close> attempts, sleeps
  \<open>QUERY_RETRY_WAIT = 0.1\<close> after the first and after the second attempt, and raises
  the error of the last attempt.
\<close>

theorem retry_bound:
  assumes every: "\<And>i. i < RETRIES \<Longrightarrow> raises s (executed s + i) = Some (err i)"
    and retryable: "\<And>i. i < RETRIES \<Longrightarrow> is_retryable_error dialect (err i)"
  shows "execute_stmt_lambda_element s q =
           (Inl (err (RETRIES - 1)),
            s\<lparr>trace := trace s @ [Executed q, Slept QUERY_RETRY_WAIT, Executed q,
                                   Slept QUERY_RETRY_WAIT, Executed q]\<rparr>)
         \<and> executed (snd (execute_stmt_lambda_element s q)) = executed s + RETRIES
         \<and> RETRIES = 3 \<and> QUERY_RETRY_WAIT = 1 / 10"
proof -
  have r0: "raises s (executed s) = Some (err 0)"
    using every [of 0] by (simp add: RETRIES_def)
  have r1: "raises s (Suc (executed s)) = Some (err 1)"
    using every [of 1] by (simp add: RETRIES_def)
  have r2: "raises s (Suc (Suc (executed s))) = Some (err 2)"
    using every [of 2] by (simp add: RETRIES_def)
  have q0: "is_SQLAlchemyError (err 0)"
    using retryable [of 0] by (simp add: RETRIES_def retryable_is_SQLAlchemyError)
  have q1: "is_SQLAlchemyError (err 1)"
    using retryable [of 1] by (simp add: RETRIES_def retryable_is_SQLAlchemyError)
  have q2: "is_SQLAlchemyError (err 2)"
    using retryable [of 2] by (simp add: RETRIES_def retryable_is_SQLAlchemyError)
  have run: "execute_stmt_lambda_element s q =
           (Inl (err (RETRIES - 1)),
            s\<lparr>trace := trace s @ [Executed q, Slept QUERY_RETRY_WAIT, Executed q,
                                   Slept QUERY_RETRY_WAIT, Executed q]\<rparr>)"
    unfolding execute_unfold
    using r0 r1 r2 q0 q1 q2 by (simp add: Let_def executed_def RETRIES_def)
  show ?thesis unfolding run by (simp add: executed_def RETRIES_def QUERY_RETRY_WAIT_def)
qed

text \<open>
  Witness of C7: a MySQL deadlock (code 1213) on every attempt.
\<close>

theorem retry_bound_witness:
  "is_retryable_error MYSQL (OperationalError (Some 1213)) \<and>
   execute_stmt_lambda_element (always_raises (OperationalError (Some 1213)))
       (find_event_type_ids [''a'']) =
     (Inl (OperationalError (Some 1213)),
      (always_raises (OperationalError (Some 1213)))\<lparr>trace :=
         [Executed (find_event_type_ids [''a'']), Slept (1 / 10),
          Executed (find_event_type_ids [''a'']), Slept (1 / 10),
          Executed (find_event_type_ids [''a''])]\<rparr>)"
  using retry_bound [of "always_raises (OperationalError (Some 1213))"
      "\<lambda>i. OperationalError (Some 1213)" MYSQL "find_event_type_ids [''a'']"]
  by (simp add: always_raises_def RETRYABLE_MYSQL_ERRORS_def QUERY_RETRY_WAIT_def)

section \<open>The chunked fetch\<close>

text \<open>
  Claim C8. For a positive maximum \<open>M\<close> of bind parameters and a store whose names are
  unique, \<^verbatim>\<open>_fetch_missing_event_ids_from_db\<close> splits the \<open>N\<close> missing names into
  \<open>ceil (N / M)\<close> non-empty chunks of at most \<open>M\<close> names, whose concatenation is the
  list of missing names. It sends one statement per chunk, in order: exactly the
  statements of the chunks when no statement raises, and in every call that returns
  each chunk's statement between one and \<open>RETRIES\<close> times. When the call returns, the
  results map every name of every row returned for a chunk to the id of that row.
\<close>

theorem chunked_fetch:
  assumes M: "0 < M" and uniq: "distinct (map snd (table s))"
  shows "concat (chunked missing M) = missing \<and>
    (\<forall>c\<in>set (chunked missing M). c \<noteq> [] \<and> length c \<le> M) \<and>
    length (chunked missing M) = nat \<lceil>real (length missing) / real M\<rceil> \<and>
    ((\<forall>i. raises s i = None) \<longrightarrow>
         (\<exists>res' m'. fetch_missing_event_ids_from_db M s missing res m =
            (Inr res', m',
             s\<lparr>trace := trace s @
                  map (\<lambda>c. Executed (find_event_type_ids c)) (chunked missing M)\<rparr>))) \<and>
    (\<forall>res' m' s'. fetch_missing_event_ids_from_db M s missing res m = (Inr res', m', s') \<longrightarrow>
         (\<exists>ks es. length ks = length (chunked missing M) \<and>
            (\<forall>k\<in>set ks. 0 < k \<and> k \<le> RETRIES) \<and> trace s' = trace s @ es \<and>
            filter is_Executed es = attempts_of ks (chunked missing M)) \<and>
         (\<forall>c\<in>set (chunked missing M).
            \<forall>(i, n)\<in>set (run_stmt (find_event_type_ids c) (table s)). res' n = Some (Some i)))"
proof -
  have c1: "concat (chunked missing M) = missing" using M by (rule concat_chunked)
  have c2: "\<forall>c\<in>set (chunked missing M). c \<noteq> [] \<and> length c \<le> M"
    using chunked_sizes by blast
  have c3: "length (chunked missing M) = nat \<lceil>real (length missing) / real M\<rceil>"
    using M length_chunked [of M missing] ceil_div [of M "length missing"] by simp
  have c4: "(\<forall>i. raises s i = None) \<longrightarrow>
         (\<exists>res' m'. fetch_missing_event_ids_from_db M s missing res m =
            (Inr res', m',
             s\<lparr>trace := trace s @
                  map (\<lambda>c. Executed (find_event_type_ids c)) (chunked missing M)\<rparr>))"
    by (simp add: fetch_missing_event_ids_from_db_def fetch_chunks_no_fault)
  have c5: "\<forall>res' m' s'. fetch_missing_event_ids_from_db M s missing res m = (Inr res', m', s') \<longrightarrow>
         (\<exists>ks es. length ks = length (chunked missing M) \<and>
            (\<forall>k\<in>set ks. 0 < k \<and> k \<le> RETRIES) \<and> trace s' = trace s @ es \<and>
            filter is_Executed es = attempts_of ks (chunked missing M)) \<and>
         (\<forall>c\<in>set (chunked missing M).
            \<forall>(i, n)\<in>set (run_stmt (find_event_type_ids c) (table s)). res' n = Some (Some i))"
  proof (intro allI impI conjI)
    fix res' m' s'
    assume "fetch_missing_event_ids_from_db M s missing res m = (Inr res', m', s')"
    then have f: "fetch_chunks (chunked missing M) res m s = (Inr res', m', s')"
      by (simp add: fetch_missing_event_ids_from_db_def)
    show "\<exists>ks es. length ks = length (chunked missing M) \<and>
            (\<forall>k\<in>set ks. 0 < k \<and> k \<le> RETRIES) \<and> trace s' = trace s @ es \<and>
            filter is_Executed es = attempts_of ks (chunked missing M)"
      using fetch_chunks_attempts [OF f] .
    let ?rows = "chunk_rows (table s) (chunked missing M)"
    have res': "res' = res ++ map_of (rev (map row_entry ?rows))"
      using fetch_chunks_Inr [OF f] by simp
    show "\<forall>c\<in>set (chunked missing M).
            \<forall>(i, n)\<in>set (run_stmt (find_event_type_ids c) (table s)). res' n = Some (Some i)"
    proof (intro ballI, clarify)
      fix c i n
      assume c: "c \<in> set (chunked missing M)"
        and r: "(i, n) \<in> set (run_stmt (find_event_type_ids c) (table s))"
      have in_rows: "(i, n) \<in> set ?rows" using c r by (auto simp: chunk_rows_def)
      have sub: "set ?rows \<subseteq> set (table s)" by (auto simp: set_chunk_rows)
      have "(n, Some i) \<in> set (rev (map row_entry ?rows))"
        using in_rows by (force simp: row_entry_def)
      moreover have "\<forall>v'. (n, v') \<in> set (rev (map row_entry ?rows)) \<longrightarrow> v' = Some i"
        using sub in_rows distinct_names_unique [OF uniq] by (fastforce simp: row_entry_def)
      ultimately have "map_of (rev (map row_entry ?rows)) n = Some (Some i)"
        by (rule map_of_unique)
      then show "res' n = Some (Some i)" by (simp add: res' map_add_def)
    qed
  qed
  show ?thesis by (intro conjI) (rule c1 c2 c3 c4 c5)+
qed

text \<open>
  Witness of C8: three missing names, two of them in the store, at most two names per
  statement.
\<close>

theorem chunked_fetch_witness:
  "0 < (2::nat) \<and> distinct (map snd (table small_store)) \<and>
   chunked [''a'', ''b'', ''c''] 2 = [[''a'', ''b''], [''c'']] \<and>
   length (chunked [''a'', ''b'', ''c''] 2) = 2 \<and>
   (\<exists>res' m'. fetch_missing_event_ids_from_db 2 small_store [''a'', ''b'', ''c''] Map.empty
        init_manager =
      (Inr res', m',
       small_store\<lparr>trace := [Executed (find_event_type_ids [''a'', ''b'']),
                              Executed (find_event_type_ids [''c''])]\<rparr>) \<and>
      res' ''a'' = Some (Some 1) \<and> res' ''c'' = Some (Some 3))"
proof -
  have M: "0 < (2::nat)" by simp
  have u: "distinct (map snd (table small_store))" by (simp add: small_store_def)
  have nf: "\<forall>i. raises small_store i = None" by (simp add: small_store_def)
  note t = chunked_fetch [OF M u, of "[''a'', ''b'', ''c'']" Map.empty init_manager]
  from t nf obtain res' m' where f:
    "fetch_missing_event_ids_from_db 2 small_store [''a'', ''b'', ''c''] Map.empty init_manager =
       (Inr res', m',
        small_store\<lparr>trace := trace small_store @
          map (\<lambda>c. Executed (find_event_type_ids c)) (chunked [''a'', ''b'', ''c''] 2)\<rparr>)"
    by blast
  from t f have rows: "\<forall>c\<in>set (chunked [''a'', ''b'', ''c''] 2).
      \<forall>(i, n)\<in>set (run_stmt (find_event_type_ids c) (table small_store)).
        res' n = Some (Some i)"
    by blast
  have r: "res' ''a'' = Some (Some 1) \<and> res' ''c'' = Some (Some 3)"
    using rows by (simp add: chunked_eval small_store_def)
  have l: "length (chunked [''a'', ''b'', ''c''] 2) = 2"
    using t by (simp add: chunked_eval)
  show ?thesis
    using M u l r f by (simp add: chunked_eval small_store_def)
qed

section \<open>Cached names\<close>



section \<open>Eviction of purged names\<close>

text \<open>
  Claim C10, as stated, fails for a name that is in the negative cache: after a lookup
  from the recorder has recorded \<open>x\<close> as non-existent, \<^verbatim>\<open>evict_purged\<close> of \<open>x\<close> changes
  nothing and the following \<^verbatim>\<open>get\<close> of \<open>x\<close> returns \<^verbatim>\<open>None\<close> without any statement
  sent to the store.
\<close>

theorem evict_purged_known_absent_counterexample:
  "fst (snd (get_many 990 [''x''] empty_store True init_manager)) = neg_x \<and>
   evict_purged [''x''] neg_x = neg_x \<and>
   get 990 ''x'' empty_store False (evict_purged [''x''] neg_x) = (Inr None, neg_x, empty_store)"
  by (simp add: get_many_absent_eval)
    (simp add: get_def get_many_def get_initial_results_and_missing_def neg_x_def
      init_manager_def LRU_new_def lru_get_def lru_contains_def lru_keys_def evict_purged_def
      lru_pop_def lru_remove_def)

text \<open>
  Claim C10, amended. \<^verbatim>\<open>evict_purged\<close> removes exactly the entries of the given names
  from the id cache and leaves the negative cache, the pending map and the task queue
  unchanged. After \<^verbatim>\<open>evict_purged\<close> of a name \<open>X\<close> the id cache has no entry for \<open>X\<close>,
  and a following \<^verbatim>\<open>get\<close> of \<open>X\<close> sends a statement for \<open>X\<close> to the store, provided
  that the maximum of bind parameters is positive and that \<open>X\<close> is not in the negative
  cache; the latter holds whenever \<open>X\<close> was in the id cache of a reachable manager.
\<close>

theorem evict_purged_frame:
  "id_map (evict_purged names m) =
     (id_map m)\<lparr>lru_items := filter (\<lambda>p. fst p \<notin> set names) (lru_items (id_map m))\<rparr> \<and>
   non_existent_event_types (evict_purged names m) = non_existent_event_types m \<and>
   pending (evict_purged names m) = pending m \<and> queue (evict_purged names m) = queue m \<and>
   (0 < M \<and> (\<not> lru_contains X (non_existent_event_types m) \<or>
              reachable m \<and> lru_contains X (id_map m)) \<longrightarrow>
      lru_peek X (id_map (evict_purged [X] m)) = None \<and>
      (\<exists>es. trace (snd (snd (get M X s fr (evict_purged [X] m)))) =
         trace s @ Executed (find_event_type_ids [X]) # es))"
proof -
  have a: "id_map (evict_purged names m) =
     (id_map m)\<lparr>lru_items := filter (\<lambda>p. fst p \<notin> set names) (lru_items (id_map m))\<rparr>"
    by (simp add: evict_purged_def fold_lru_pop)
  have b: "non_existent_event_types (evict_purged names m) = non_existent_event_types m \<and>
   pending (evict_purged names m) = pending m \<and> queue (evict_purged names m) = queue m"
    by (simp add: evict_purged_def)
  have c: "lru_peek X (id_map (evict_purged [X] m)) = None \<and>
      (\<exists>es. trace (snd (snd (get M X s fr (evict_purged [X] m)))) =
         trace s @ Executed (find_event_type_ids [X]) # es)"
    if M: "0 < M" and nn: "\<not> lru_contains X (non_existent_event_types m)"
  proof -
    let ?m = "evict_purged [X] m"
    have "X \<notin> fst ` set (filter (\<lambda>p. fst p \<noteq> X) (lru_items (id_map m)))" by auto
    then have pk: "lru_peek X (id_map ?m) = None"
      by (simp add: evict_purged_def lru_pop_def lru_remove_def lru_peek_def map_of_eq_None_iff)
    have u: "unresolved [X] ?m = [X]"
      using pk nn by (simp add: unresolved_def evict_purged_def)
    obtain r m1 s1 where g: "get_many M [X] s False ?m = (r, m1, s1)" by (rule prod_cases3)
    have s1: "snd (snd (get M X s fr ?m)) = s1"
      unfolding get_unfold [OF g] by (simp split: sum.splits option.splits)
    have "\<exists>es. trace s1 = trace s @ Executed (find_event_type_ids [X]) # es"
    proof (cases rule: get_many_cases [where M=M and ets="[X]" and s=s and fr=False and m="?m"])
      case cached
      with u show ?thesis by simp
    next
      case (raised err m2 s2)
      have "s1 = s2" using raised(3) g by simp
      then show ?thesis
        using fetch_chunks_first [OF raised(2) [unfolded u chunked_single [OF M]]] by simp
    next
      case (fetched res2 m2 s2)
      have "s1 = s2" using fetched(3) g by simp
      then show ?thesis
        using fetch_chunks_first [OF fetched(2) [unfolded u chunked_single [OF M]]] by simp
    qed
    with pk s1 show ?thesis by simp
  qed
  have d: "\<not> lru_contains X (non_existent_event_types m)"
    if "reachable m" and "lru_contains X (id_map m)"
    using reachable_wf [OF that(1)] that(2) by (auto simp: wf_manager_def lru_contains_def)
  show ?thesis using a b c d by blast
qed

text \<open>
  Witness of the amended C10, the eviction of a cached name from a reachable manager.
\<close>

theorem evict_purged_frame_witness:
  "0 < (990::nat) \<and> reachable cached_a \<and> lru_contains ''a'' (id_map cached_a) \<and>
   \<not> lru_contains ''a'' (non_existent_event_types cached_a) \<and>
   lru_items (id_map (evict_purged [''a''] cached_a)) = [(''b'', 2)] \<and>
   (\<exists>es. trace (snd (snd (get 990 ''a'' empty_store False (evict_purged [''a''] cached_a)))) =
      Executed (find_event_type_ids [''a'']) # es)"
proof -
  have M: "0 < (990::nat)" by simp
  have c: "lru_contains ''a'' (id_map cached_a)"
    and n: "\<not> lru_contains ''a'' (non_existent_event_types cached_a)"
    by (simp_all add: cached_a_def init_manager_def LRU_new_def lru_contains_def lru_keys_def)
  note t = evict_purged_frame [of "[''a'']" cached_a 990 "''a''" empty_store False]
  have i: "lru_items (id_map (evict_purged [''a''] cached_a)) = [(''b'', 2)]"
    using t by (simp add: cached_a_def init_manager_def)
  have q: "\<exists>es. trace (snd (snd (get 990 ''a'' empty_store False (evict_purged [''a''] cached_a)))) =
      trace empty_store @ Executed (find_event_type_ids [''a'']) # es"
    using t M reachable_cached_a c by blast
  show ?thesis using M reachable_cached_a c n i q by (simp add: empty_store_def)
qed

end
